theory Spec2Isabelle
  imports Main "HOL-Library.Word"
begin

section \<open>Bytes, buffers and the digest provider\<close>

text \<open>
  The tool of \<^verbatim>\<open>hashchain.c\<close> builds a hash chain in one flat buffer, checks one link
  of a chain, and prints and reads digests as base64 text. The embedding follows the C
  functions one by one. A \<^verbatim>\<open>uint8_t\<close> is an 8-bit word, a buffer is the list of its
  bytes, and an access outside a buffer is an error value of the model.

  C's \<^verbatim>\<open>int\<close> has 32 bits. The counts \<open>chain_length\<close> and \<open>digest_size\<close> are
  integers, and the products the program forms from them wrap around as the compiled
  code's do (\<open>int_mul\<close>). Every allocation is taken to succeed.
\<close>

type_synonym byte = "8 word"

datatype mem_error = ReadOutOfBounds | WriteOutOfBounds

definition INT_MAX :: int where
  "INT_MAX = 2147483647"

text \<open>The 32-bit two's complement value with the low 32 bits of \<open>x\<close>.\<close>

definition to_int32 :: "int \<Rightarrow> int" where
  "to_int32 x = (x + 2147483648) mod 4294967296 - 2147483648"

text \<open>
  The product of two \<^verbatim>\<open>int\<close>s. Where the mathematical product leaves the range of
  \<^verbatim>\<open>int\<close> the C standard leaves the behaviour undefined; the compiled code keeps the low
  32 bits.
\<close>

definition int_mul :: "int \<Rightarrow> int \<Rightarrow> int" where
  "int_mul a b = to_int32 (a * b)"

text \<open>Reading \<open>n\<close> bytes at offset \<open>off\<close> of a buffer; a negative count is a huge \<^verbatim>\<open>size_t\<close>.\<close>

definition buf_read :: "byte list \<Rightarrow> int \<Rightarrow> int \<Rightarrow> mem_error + byte list" where
  "buf_read buf off n =
     (if 0 \<le> off \<and> 0 \<le> n \<and> off + n \<le> int (length buf)
      then Inr (take (nat n) (drop (nat off) buf))
      else Inl ReadOutOfBounds)"

text \<open>Writing the bytes \<open>bs\<close> at offset \<open>off\<close> of a buffer.\<close>

definition buf_write :: "byte list \<Rightarrow> int \<Rightarrow> byte list \<Rightarrow> mem_error + byte list" where
  "buf_write buf off bs =
     (if 0 \<le> off \<and> off + int (length bs) \<le> int (length buf)
      then Inr (take (nat off) buf @ bs @ drop (nat off + length bs) buf)
      else Inl WriteOutOfBounds)"

text \<open>
  \<^verbatim>\<open>calloc(nmemb, size)\<close>: a block of \<open>nmemb * size\<close> zero bytes. A count that is not
  positive gives no usable byte (a negative \<^verbatim>\<open>int\<close> converts to a \<^verbatim>\<open>size_t\<close> whose
  product overflows, and \<^verbatim>\<open>calloc\<close> returns \<^verbatim>\<open>NULL\<close>).
\<close>

definition calloc :: "int \<Rightarrow> int \<Rightarrow> byte list" where
  "calloc nmemb sz = replicate (nat nmemb * nat sz) 0"

text \<open>
  The digest algorithms are OpenSSL's and not part of the repository. An \<^verbatim>\<open>EVP_MD\<close> is
  taken as a parameter: the size \<^verbatim>\<open>EVP_MD_size\<close> reports and the hash function itself.
  It is valid when every digest has exactly the reported, positive size.
\<close>

record EVP_MD =
  md_size :: int
  md_fn :: "byte list \<Rightarrow> byte list"

definition EVP_MD_size :: "EVP_MD \<Rightarrow> int" where
  "EVP_MD_size md = md_size md"

definition valid_md :: "EVP_MD \<Rightarrow> bool" where
  "valid_md md \<longleftrightarrow> 0 < md_size md \<and> (\<forall>x. int (length (md_fn md x)) = md_size md)"

text \<open>
  The streaming interface: a context holds the algorithm it was initialised with and
  the bytes fed to it since; \<^verbatim>\<open>EVP_DigestInit_ex\<close> discards what an earlier use left.
\<close>

record EVP_MD_CTX =
  ctx_md :: "EVP_MD option"
  ctx_input :: "byte list"

definition EVP_MD_CTX_create :: EVP_MD_CTX where
  "EVP_MD_CTX_create = \<lparr>ctx_md = None, ctx_input = []\<rparr>"

definition EVP_DigestInit_ex :: "EVP_MD_CTX \<Rightarrow> EVP_MD \<Rightarrow> EVP_MD_CTX" where
  "EVP_DigestInit_ex ctx md = ctx\<lparr>ctx_md := Some md, ctx_input := []\<rparr>"

definition EVP_DigestUpdate :: "EVP_MD_CTX \<Rightarrow> byte list \<Rightarrow> EVP_MD_CTX" where
  "EVP_DigestUpdate ctx bs = ctx\<lparr>ctx_input := ctx_input ctx @ bs\<rparr>"

text \<open>\<^verbatim>\<open>EVP_DigestFinal_ex\<close>: the digest bytes it stores at its output pointer.\<close>

definition EVP_DigestFinal_ex :: "EVP_MD_CTX \<Rightarrow> byte list" where
  "EVP_DigestFinal_ex ctx =
     (case ctx_md ctx of None \<Rightarrow> [] | Some md \<Rightarrow> md_fn md (ctx_input ctx))"

section \<open>The hash chain\<close>

text \<open>
  \<^verbatim>\<open>struct hash_chain\<close>: \<open>data\<close> is the content of the block the pointer refers to,
  \<open>chain_length * digest_size\<close> bytes.
\<close>

record hash_chain =
  digest_size :: int
  chain_length :: int
  data :: "byte list"

text \<open>Element \<open>i\<close> of a chain: the \<open>digest_size\<close> bytes at \<open>data + i * digest_size\<close>.\<close>

definition hash_chain_elem :: "hash_chain \<Rightarrow> int \<Rightarrow> mem_error + byte list" where
  "hash_chain_elem chain i =
     buf_read (data chain) (int_mul i (digest_size chain)) (digest_size chain)"

text \<open>
  The loop of \<^verbatim>\<open>hash_chain_create\<close>: for \<open>idx\<close> from 1 below \<open>chain_length\<close>, hash the
  previous digest into slot \<open>idx\<close>. The context is the one the caller created.
\<close>

function hash_chain_loop ::
  "EVP_MD \<Rightarrow> int \<Rightarrow> int \<Rightarrow> int \<Rightarrow> EVP_MD_CTX \<Rightarrow> byte list \<Rightarrow> mem_error + byte list" where
  "hash_chain_loop type dsize clen idx ctx buf =
     (if idx < clen then
        (let ctx1 = EVP_DigestInit_ex ctx type in
         case buf_read buf (int_mul (idx - 1) dsize) dsize of
           Inl e \<Rightarrow> Inl e
         | Inr prev \<Rightarrow>
             (let ctx2 = EVP_DigestUpdate ctx1 prev in
              case buf_write buf (int_mul idx dsize) (EVP_DigestFinal_ex ctx2) of
                Inl e \<Rightarrow> Inl e
              | Inr buf' \<Rightarrow> hash_chain_loop type dsize clen (idx + 1) ctx2 buf'))
      else Inr buf)"
  by pat_completeness auto
termination
  by (relation "measure (\<lambda>(type, dsize, clen, idx, ctx, buf). nat (clen - idx))") auto

declare hash_chain_loop.simps [simp del]

text \<open>
  \<^verbatim>\<open>hash_chain_create(base, baselen, type, chain_len)\<close>. The first digest is written
  at offset 0 before \<open>chain_len\<close> is looked at.
\<close>

definition hash_chain_create ::
  "byte list \<Rightarrow> int \<Rightarrow> EVP_MD \<Rightarrow> int \<Rightarrow> mem_error + hash_chain" where
  "hash_chain_create base baselen type chain_len =
     (let dsize = EVP_MD_size type;
          buf0 = calloc chain_len dsize;
          ctx0 = EVP_DigestInit_ex EVP_MD_CTX_create type
      in case buf_read base 0 baselen of
           Inl e \<Rightarrow> Inl e
         | Inr seed \<Rightarrow>
             (let ctx1 = EVP_DigestUpdate ctx0 seed in
              case buf_write buf0 0 (EVP_DigestFinal_ex ctx1) of
                Inl e \<Rightarrow> Inl e
              | Inr buf1 \<Rightarrow>
                  (case hash_chain_loop type dsize chain_len 1 ctx1 buf1 of
                     Inl e \<Rightarrow> Inl e
                   | Inr buf \<Rightarrow>
                       Inr \<lparr>digest_size = dsize, chain_length = chain_len, data = buf\<rparr>)))"

text \<open>
  What the chain is to hold: position \<open>i\<close> carries the hash function applied \<open>i + 1\<close>
  times to the seed, and the buffer is these digests one after the other.
\<close>

definition digest_at :: "EVP_MD \<Rightarrow> byte list \<Rightarrow> nat \<Rightarrow> byte list" where
  "digest_at md seed i = (md_fn md ^^ Suc i) seed"

definition chain_bytes :: "EVP_MD \<Rightarrow> byte list \<Rightarrow> nat \<Rightarrow> byte list" where
  "chain_bytes md seed n = concat (map (digest_at md seed) [0..<n])"

text \<open>
  \<^verbatim>\<open>malloc(n)\<close>: a block of \<open>n\<close> bytes whose content is whatever the heap held; that
  content is a parameter of the model.
\<close>

type_synonym garbage = "nat \<Rightarrow> byte"

definition malloc :: "garbage \<Rightarrow> int \<Rightarrow> byte list" where
  "malloc g n = map g [0..<nat n]"

text \<open>\<^verbatim>\<open>memcmp\<close> on two byte sequences of one length: the sign of the first difference.\<close>

fun memcmp_bytes :: "byte list \<Rightarrow> byte list \<Rightarrow> int" where
  "memcmp_bytes (x # xs) (y # ys) =
     (if x = y then memcmp_bytes xs ys else int (unat x) - int (unat y))"
| "memcmp_bytes _ _ = 0"

definition memcmp :: "byte list \<Rightarrow> byte list \<Rightarrow> int \<Rightarrow> mem_error + int" where
  "memcmp s1 s2 n =
     (case buf_read s1 0 n of
        Inl e \<Rightarrow> Inl e
      | Inr a \<Rightarrow> (case buf_read s2 0 n of Inl e \<Rightarrow> Inl e | Inr b \<Rightarrow> Inr (memcmp_bytes a b)))"

text \<open>
  \<^verbatim>\<open>hash_chain_verify(h, tip, hash)\<close>: hash \<open>digest_len\<close> bytes of \<open>h\<close> into a fresh block
  and compare \<open>digest_len\<close> bytes of it with \<open>tip\<close>. \<open>g\<close> is the content \<^verbatim>\<open>malloc\<close> hands out.
\<close>

definition hash_chain_verify ::
  "garbage \<Rightarrow> byte list \<Rightarrow> byte list \<Rightarrow> EVP_MD \<Rightarrow> mem_error + bool" where
  "hash_chain_verify g h tip hash =
     (let digest_len = EVP_MD_size hash;
          block = malloc g digest_len;
          ctx0 = EVP_DigestInit_ex EVP_MD_CTX_create hash
      in case buf_read h 0 digest_len of
           Inl e \<Rightarrow> Inl e
         | Inr hb \<Rightarrow>
             (let ctx1 = EVP_DigestUpdate ctx0 hb in
              case buf_write block 0 (EVP_DigestFinal_ex ctx1) of
                Inl e \<Rightarrow> Inl e
              | Inr block' \<Rightarrow>
                  (case memcmp block' tip digest_len of
                     Inl e \<Rightarrow> Inl e
                   | Inr result \<Rightarrow> Inr (result = 0))))"

section \<open>The chain builder on an explicit memory\<close>










section \<open>The base64 filter of OpenSSL\<close>

text \<open>
  \<^verbatim>\<open>BIO_f_base64\<close> and the \<^verbatim>\<open>EVP_Encode\<close>/\<^verbatim>\<open>EVP_Decode\<close> routines under it belong to
  OpenSSL, not to the repository. They are modelled after the library: the RFC 4648
  alphabet with \<open>=\<close> padding; an encoder that, without \<^verbatim>\<open>BIO_FLAGS_BASE64_NO_NL\<close>, ends a
  line after every 48 input bytes (64 characters) and after the last partial block on
  a flush; a decoder that, with \<^verbatim>\<open>BIO_FLAGS_BASE64_NO_NL\<close>, decodes whole groups of four
  characters and delivers nothing for a block it cannot decode.
\<close>

definition newline :: char where
  "newline = CHR 0x0A"

definition b64_alphabet :: string where
  "b64_alphabet = ''ABCDEFGHIJKLMNOPQRSTUVWXYZabcdefghijklmnopqrstuvwxyz0123456789+/''"

text \<open>\<^verbatim>\<open>conv_bin2ascii(a)\<close> is \<^verbatim>\<open>data_bin2ascii[a & 0x3f]\<close>.\<close>

definition conv_bin2ascii :: "nat \<Rightarrow> char" where
  "conv_bin2ascii a = b64_alphabet ! (a mod 64)"

text \<open>
  \<^verbatim>\<open>EVP_EncodeBlock\<close>: three bytes give the 24-bit value \<open>l\<close> and four characters
  \<open>l >> 18\<close>, \<open>l >> 12\<close>, \<open>l >> 6\<close>, \<open>l\<close>; one or two last bytes are padded with \<open>=\<close>.
\<close>

fun EVP_EncodeBlock :: "byte list \<Rightarrow> string" where
  "EVP_EncodeBlock [] = []"
| "EVP_EncodeBlock [f0] =
     (let l = unat f0 * 65536
      in [conv_bin2ascii (l div 262144), conv_bin2ascii (l div 4096), CHR ''='', CHR ''=''])"
| "EVP_EncodeBlock [f0, f1] =
     (let l = unat f0 * 65536 + unat f1 * 256
      in [conv_bin2ascii (l div 262144), conv_bin2ascii (l div 4096),
          conv_bin2ascii (l div 64), CHR ''=''])"
| "EVP_EncodeBlock (f0 # f1 # f2 # rest) =
     (let l = unat f0 * 65536 + unat f1 * 256 + unat f2
      in [conv_bin2ascii (l div 262144), conv_bin2ascii (l div 4096),
          conv_bin2ascii (l div 64), conv_bin2ascii l] @ EVP_EncodeBlock rest)"

text \<open>The loop of \<^verbatim>\<open>EVP_EncodeUpdate\<close>: one line for every full 48 bytes; the rest is kept.\<close>

function encode_full_lines :: "byte list \<Rightarrow> string \<times> byte list" where
  "encode_full_lines inp =
     (if 48 \<le> length inp then
        (let (out, rest) = encode_full_lines (drop 48 inp)
         in (EVP_EncodeBlock (take 48 inp) @ [newline] @ out, rest))
      else ([], inp))"
  by pat_completeness auto
termination
  by (relation "measure length") auto

declare encode_full_lines.simps [simp del]

text \<open>
  \<^verbatim>\<open>EVP_EncodeUpdate\<close> on the pending bytes \<open>enc_data\<close> of the encoder: the text it
  emits and the bytes it keeps. \<^verbatim>\<open>EVP_EncodeFinal\<close> emits the kept bytes as a last line.
\<close>

definition EVP_EncodeUpdate :: "byte list \<Rightarrow> byte list \<Rightarrow> string \<times> byte list" where
  "EVP_EncodeUpdate enc_data inp =
     (if inp = [] then ([], enc_data)
      else if length enc_data + length inp < 48 then ([], enc_data @ inp)
      else
        (let i = (if enc_data = [] then 0 else 48 - length enc_data);
             out1 = (if enc_data = [] then []
                     else EVP_EncodeBlock (enc_data @ take i inp) @ [newline]);
             (out2, rest) = encode_full_lines (drop i inp)
         in (out1 @ out2, rest)))"

definition EVP_EncodeFinal :: "byte list \<Rightarrow> string" where
  "EVP_EncodeFinal enc_data = (if enc_data = [] then [] else EVP_EncodeBlock enc_data @ [newline])"

text \<open>The encoding BIO pushed on a file BIO: the encoder's pending bytes and the file's text.\<close>

record b64_bio =
  enc_data :: "byte list"
  file_text :: string

definition BIO_new_b64_fp :: "string \<Rightarrow> b64_bio" where
  "BIO_new_b64_fp f = \<lparr>enc_data = [], file_text = f\<rparr>"

text \<open>\<^verbatim>\<open>BIO_write(bio, buf + off, dlen)\<close>; nothing is read when \<open>dlen\<close> is not positive.\<close>

definition BIO_write :: "b64_bio \<Rightarrow> byte list \<Rightarrow> int \<Rightarrow> int \<Rightarrow> mem_error + b64_bio" where
  "BIO_write bio buf off dlen =
     (if dlen \<le> 0 then Inr bio
      else case buf_read buf off dlen of
             Inl e \<Rightarrow> Inl e
           | Inr bs \<Rightarrow>
               (let (out, rest) = EVP_EncodeUpdate (enc_data bio) bs
                in Inr \<lparr>enc_data = rest, file_text = file_text bio @ out\<rparr>))"

definition BIO_flush :: "b64_bio \<Rightarrow> b64_bio" where
  "BIO_flush bio = \<lparr>enc_data = [], file_text = file_text bio @ EVP_EncodeFinal (enc_data bio)\<rparr>"

text \<open>\<^verbatim>\<open>hash_chain_print(chain, f)\<close>: the loop over the elements, then the text of the file.\<close>

function hash_chain_print_loop :: "hash_chain \<Rightarrow> int \<Rightarrow> b64_bio \<Rightarrow> mem_error + b64_bio" where
  "hash_chain_print_loop chain i bio =
     (if i < chain_length chain then
        (case BIO_write bio (data chain) (int_mul i (digest_size chain)) (digest_size chain) of
           Inl e \<Rightarrow> Inl e
         | Inr bio' \<Rightarrow> hash_chain_print_loop chain (i + 1) (BIO_flush bio'))
      else Inr bio)"
  by pat_completeness auto
termination
  by (relation "measure (\<lambda>(chain, i, bio). nat (chain_length chain - i))") auto

declare hash_chain_print_loop.simps [simp del]

definition hash_chain_print :: "hash_chain \<Rightarrow> string \<Rightarrow> mem_error + string" where
  "hash_chain_print chain f =
     (case hash_chain_print_loop chain 0 (BIO_new_b64_fp f) of
        Inl e \<Rightarrow> Inl e
      | Inr bio \<Rightarrow> Inr (file_text bio))"

subsection \<open>Decoding\<close>

fun index_of :: "'a \<Rightarrow> 'a list \<Rightarrow> nat option" where
  "index_of c [] = None"
| "index_of c (x # xs) = (if c = x then Some 0 else map_option Suc (index_of c xs))"

text \<open>
  \<^verbatim>\<open>conv_ascii2bin\<close>, the table \<^verbatim>\<open>data_ascii2bin\<close>: the value of an alphabet character,
  0 for \<open>=\<close>, \<open>0xE0\<close> for blank and tab, \<open>0xF0\<close> for line feed, \<open>0xF1\<close> for carriage
  return, \<open>0xF2\<close> for \<open>-\<close>, and \<open>0xFF\<close> for every other character.
\<close>

definition conv_ascii2bin :: "char \<Rightarrow> nat" where
  "conv_ascii2bin c =
     (case index_of c b64_alphabet of
        Some i \<Rightarrow> i
      | None \<Rightarrow>
          if c = CHR ''='' then 0
          else if c = CHR '' '' \<or> c = CHR 0x09 then 0xE0
          else if c = newline then 0xF0
          else if c = CHR 0x0D then 0xF1
          else if c = CHR ''-'' then 0xF2
          else 0xFF)"

text \<open>\<^verbatim>\<open>B64_NOT_BASE64(a)\<close> is \<^verbatim>\<open>((a) | 0x13) == 0xF3\<close>: on the table's values, those from \<open>0xE0\<close> to \<open>0xF2\<close>.\<close>

definition B64_NOT_BASE64 :: "nat \<Rightarrow> bool" where
  "B64_NOT_BASE64 a \<longleftrightarrow> a = 0xE0 \<or> a = 0xF0 \<or> a = 0xF1 \<or> a = 0xF2"

text \<open>
  The loop of \<^verbatim>\<open>EVP_DecodeBlock\<close>: four characters give three bytes; a character whose
  table value has bit \<open>0x80\<close> set makes the routine return -1, here \<open>None\<close>.
\<close>

fun decode_groups :: "string \<Rightarrow> byte list option" where
  "decode_groups (c0 # c1 # c2 # c3 # rest) =
     (let a = conv_ascii2bin c0; b = conv_ascii2bin c1;
          c = conv_ascii2bin c2; d = conv_ascii2bin c3
      in if 128 \<le> a \<or> 128 \<le> b \<or> 128 \<le> c \<or> 128 \<le> d then None
         else
           (let l = a * 262144 + b * 4096 + c * 64 + d
            in case decode_groups rest of
                 None \<Rightarrow> None
               | Some bs \<Rightarrow>
                   Some (of_nat (l div 65536 mod 256) # of_nat (l div 256 mod 256)
                           # of_nat (l mod 256) # bs)))"
| "decode_groups _ = Some []"

text \<open>Trailing blanks and line ends are dropped while more than three characters remain.\<close>

function strip_end :: "string \<Rightarrow> string" where
  "strip_end f =
     (if 3 < length f \<and> B64_NOT_BASE64 (conv_ascii2bin (last f)) then strip_end (butlast f)
      else f)"
  by pat_completeness auto
termination
  by (relation "measure length") auto

declare strip_end.simps [simp del]

definition EVP_DecodeBlock :: "string \<Rightarrow> byte list option" where
  "EVP_DecodeBlock f =
     (let f1 = dropWhile (\<lambda>c. conv_ascii2bin c = 0xE0) f;
          f2 = strip_end f1
      in if length f2 mod 4 \<noteq> 0 then None else decode_groups f2)"

text \<open>
  \<^verbatim>\<open>BIO_read(b64, buf, outl)\<close> on a memory BIO holding \<open>str\<close>, with
  \<^verbatim>\<open>BIO_FLAGS_BASE64_NO_NL\<close>: the bytes it stores at \<open>buf\<close>. While room is left the
  filter reads a block of its source, as many characters as fit its buffer of 1024
  behind the characters \<open>tmp\<close> kept from the block before. It decodes the first
  \<open>jj = i & ~3\<close> of the \<open>i\<close> characters it holds, takes one byte off the count for
  each of the last two of them that is \<open>=\<close>, hands over as many of the bytes as there
  is room for, and keeps the characters behind \<open>jj\<close>. It stops at the end of the
  source and after a block that gave no byte or could not be decoded.
\<close>

function b64_read :: "string \<Rightarrow> string \<Rightarrow> int \<Rightarrow> byte list" where
  "b64_read src tmp outl =
     (if outl \<le> 0 then []
      else
        (let blk = take (1024 - length tmp) src in
         if blk = [] then []
         else
           (let t = tmp @ blk;
                jj = length t - length t mod 4
            in case EVP_DecodeBlock (take jj t) of
                 None \<Rightarrow> []
               | Some bs \<Rightarrow>
                   (let z = int (length bs)
                          - (if 2 < jj \<and> t ! (jj - 1) = CHR ''=''
                             then (if t ! (jj - 2) = CHR ''='' then 2 else 1) else 0)
                    in if z \<le> 0 then []
                       else
                         (let got = take (nat (min z outl)) bs
                          in got @ b64_read (drop (length blk) src) (drop jj t)
                                     (outl - int (length got)))))))"
  by pat_completeness auto
termination
  apply (relation "measure (\<lambda>(src, tmp, outl). length src)")
   apply simp
  apply (simp only: in_measure prod.case length_drop length_take)
  subgoal premises prems for src tmp outl
  proof -
    have "src \<noteq> []" and "0 < 1024 - length tmp" using prems(3) by auto
    then have "0 < length src" and "0 < min (length src) (1024 - length tmp)" by simp_all
    then show ?thesis by linarith
  qed
  done

declare b64_read.simps [simp del]

definition BIO_read_b64 :: "string \<Rightarrow> int \<Rightarrow> byte list" where
  "BIO_read_b64 str outl = b64_read str [] outl"

text \<open>
  \<^verbatim>\<open>base64_decode(str, explen)\<close>: a fresh block of \<open>explen\<close> bytes, the bytes
  \<^verbatim>\<open>BIO_read\<close> delivered at its start. The return value of \<^verbatim>\<open>BIO_read\<close> is not looked at,
  and the block is returned in every case.
\<close>

definition base64_decode :: "garbage \<Rightarrow> string \<Rightarrow> int \<Rightarrow> byte list" where
  "base64_decode g str explen =
     (let buf = malloc g explen;
          got = BIO_read_b64 str explen
      in got @ drop (length got) buf)"

text \<open>
  The codec as the specification words it, to compare \<open>base64_decode\<close> with: a text with
  a character outside the alphabet (the padding \<open>=\<close> apart) is rejected as malformed, a
  text that decodes to another number of bytes than expected is rejected as a length
  mismatch, and otherwise the decoded bytes are the digest. What a text decodes to is
  what the filter delivers when the reader leaves it room for all of it.
\<close>

datatype codec_error = LengthMismatch | MalformedEncoding

definition decoded_bytes :: "string \<Rightarrow> byte list" where
  "decoded_bytes str = BIO_read_b64 str (int (length str))"

definition decode_spec :: "string \<Rightarrow> int \<Rightarrow> codec_error + byte list" where
  "decode_spec str expected_length =
     (if \<exists>c \<in> set str. c \<notin> set b64_alphabet \<and> c \<noteq> CHR ''='' then Inl MalformedEncoding
      else if int (length (decoded_bytes str)) \<noteq> expected_length then Inl LengthMismatch
      else Inr (decoded_bytes str))"

text \<open>The number of \<open>=\<close> characters that end the encoding of \<open>n\<close> bytes.\<close>

definition pad_count :: "nat \<Rightarrow> nat" where
  "pad_count n = (3 - n mod 3) mod 3"

section \<open>The commands\<close>

text \<open>
  \<^verbatim>\<open>sscanf(s, "%d", &length)\<close>: blanks are skipped, a sign is optional, and the longest
  run of decimal digits is converted; without a digit nothing is converted and the
  call does not return 1, here \<open>None\<close>. Characters after the digits are left unread.
  For a value outside \<^verbatim>\<open>int\<close> the C standard leaves the result undefined; the model
  follows the C library of the 64-bit build: the digits are converted as a \<^verbatim>\<open>long\<close> of
  64 bits that saturates, and its low 32 bits are stored.
\<close>

definition isspace :: "char \<Rightarrow> bool" where
  "isspace c \<longleftrightarrow> c = CHR '' '' \<or> (9 \<le> (of_char c :: nat) \<and> (of_char c :: nat) \<le> 13)"

definition isdigit :: "char \<Rightarrow> bool" where
  "isdigit c \<longleftrightarrow> 48 \<le> (of_char c :: nat) \<and> (of_char c :: nat) \<le> 57"

definition digits_value :: "string \<Rightarrow> int" where
  "digits_value ds = foldl (\<lambda>acc c. 10 * acc + (int (of_char c) - 48)) 0 ds"

definition strtol_clamp :: "int \<Rightarrow> int" where
  "strtol_clamp v = max (- 9223372036854775808) (min v 9223372036854775807)"

definition sscanf_d :: "string \<Rightarrow> int option" where
  "sscanf_d s =
     (let s1 = dropWhile isspace s;
          neg = (s1 \<noteq> [] \<and> hd s1 = CHR ''-'');
          s2 = (if s1 \<noteq> [] \<and> (hd s1 = CHR ''-'' \<or> hd s1 = CHR ''+'') then tl s1 else s1);
          ds = takeWhile isdigit s2
      in if ds = [] then None
         else Some (to_int32 (strtol_clamp (if neg then - digits_value ds else digits_value ds))))"

text \<open>What a command leaves behind: its return value and what it wrote to the two streams.\<close>

record cmd_result =
  exit_status :: int
  stdout_text :: string
  stderr_text :: string

definition EXIT_SUCCESS :: int where
  "EXIT_SUCCESS = 0"

definition EXIT_FAILURE :: int where
  "EXIT_FAILURE = 1"

text \<open>
  \<^verbatim>\<open>cmd_create(argc, argv)\<close>, with \<open>argc\<close> the length of \<open>argv\<close> and \<open>argv[0]\<close> the
  subcommand's name (\<^verbatim>\<open>main\<close> always passes it; without it the usage line would read
  through a null pointer). \<^verbatim>\<open>EVP_get_digestbyname\<close> is the table \<open>digestbyname\<close> of the
  algorithms OpenSSL registered. The length is used as \<^verbatim>\<open>sscanf\<close> delivered it.
\<close>

definition cmd_create :: "(string \<Rightarrow> EVP_MD option) \<Rightarrow> string list \<Rightarrow> mem_error + cmd_result" where
  "cmd_create digestbyname argv =
     (if argv = [] then Inl ReadOutOfBounds
      else if length argv < 4 then
        Inr \<lparr>exit_status = EXIT_FAILURE, stdout_text = [],
             stderr_text = ''error: too few args'' @ [newline] @
               ''usage: '' @ hd argv @ '' HASH LENGTH BASE'' @ [newline]\<rparr>
      else case digestbyname (argv ! 1) of
        None \<Rightarrow>
          Inr \<lparr>exit_status = EXIT_FAILURE, stdout_text = [],
               stderr_text = ''error: hash '' @ argv ! 1 @ '' doesn'' @ [CHR 0x27] @ ''t exist''
                 @ [newline]\<rparr>
      | Some hash \<Rightarrow>
          (case sscanf_d (argv ! 2) of
             None \<Rightarrow>
               Inr \<lparr>exit_status = EXIT_FAILURE, stdout_text = [],
                    stderr_text = ''error: can'' @ [CHR 0x27] @ ''t convert '' @ argv ! 2
                      @ '' to integer'' @ [newline]\<rparr>
           | Some len \<Rightarrow>
               (case hash_chain_create (map of_char (argv ! 3)) (int (length (argv ! 3))) hash len of
                  Inl e \<Rightarrow> Inl e
                | Inr chain \<Rightarrow>
                    (case hash_chain_print chain [] of
                       Inl e \<Rightarrow> Inl e
                     | Inr out \<Rightarrow>
                         Inr \<lparr>exit_status = EXIT_SUCCESS, stdout_text = out,
                              stderr_text = []\<rparr>))))"

text \<open>
  \<^verbatim>\<open>cmd_verify(argc, argv)\<close>. \<open>heap 0\<close>, \<open>heap 1\<close> and \<open>heap 2\<close> are the contents of the
  three blocks \<^verbatim>\<open>malloc\<close> hands out, in the order of the calls.
\<close>

definition cmd_verify ::
  "(string \<Rightarrow> EVP_MD option) \<Rightarrow> (nat \<Rightarrow> garbage) \<Rightarrow> string list \<Rightarrow> mem_error + cmd_result" where
  "cmd_verify digestbyname heap argv =
     (if argv = [] then Inl ReadOutOfBounds
      else if length argv < 4 then
        Inr \<lparr>exit_status = EXIT_FAILURE, stdout_text = [],
             stderr_text = ''error: too few args'' @ [newline] @
               ''usage: '' @ hd argv @ '' ALGO QUERY ANCHOR'' @ [newline]\<rparr>
      else case digestbyname (argv ! 1) of
        None \<Rightarrow>
          Inr \<lparr>exit_status = EXIT_FAILURE, stdout_text = [],
               stderr_text = ''error: hash '' @ argv ! 1 @ '' doesn'' @ [CHR 0x27] @ ''t exist''
                 @ [newline]\<rparr>
      | Some hash \<Rightarrow>
          (let digest_len = EVP_MD_size hash;
               qhash = base64_decode (heap 0) (argv ! 2) digest_len;
               thash = base64_decode (heap 1) (argv ! 3) digest_len
           in case hash_chain_verify (heap 2) qhash thash hash of
                Inl e \<Rightarrow> Inl e
              | Inr res \<Rightarrow>
                  if res then
                    Inr \<lparr>exit_status = EXIT_SUCCESS, stdout_text = ''success'' @ [newline],
                         stderr_text = []\<rparr>
                  else
                    Inr \<lparr>exit_status = EXIT_FAILURE, stdout_text = ''failure'' @ [newline],
                         stderr_text = []\<rparr>))"

text \<open>\<^verbatim>\<open>main(argc, argv)\<close>: the subcommand gets \<open>argv + 1\<close>.\<close>

definition main :: "(string \<Rightarrow> EVP_MD option) \<Rightarrow> (nat \<Rightarrow> garbage) \<Rightarrow> string list \<Rightarrow> mem_error + cmd_result" where
  "main digestbyname heap argv =
     (if length argv < 2 then
        Inr \<lparr>exit_status = EXIT_FAILURE, stdout_text = [],
             stderr_text = ''error: subcommand required'' @ [newline]\<rparr>
      else if argv ! 1 = ''create'' then cmd_create digestbyname (tl argv)
      else if argv ! 1 = ''verify'' then cmd_verify digestbyname heap (tl argv)
      else
        Inr \<lparr>exit_status = EXIT_FAILURE, stdout_text = [],
             stderr_text = ''error: subcommand '' @ argv ! 1 @ '' not found'' @ [newline]\<rparr>)"

section \<open>Concrete digests\<close>

text \<open>
  Two small digest functions for running the definitions on concrete inputs: one of
  two bytes, and one of 64 bytes, the size of SHA-512.
\<close>

definition toy_md :: EVP_MD where
  "toy_md = \<lparr>md_size = 2, md_fn = (\<lambda>bs. [sum_list bs + 1, of_nat (length bs)])\<rparr>"

definition wide_md :: EVP_MD where
  "wide_md = \<lparr>md_size = 64, md_fn = (\<lambda>bs. replicate 64 (sum_list bs))\<rparr>"

definition toy_digests :: "string \<Rightarrow> EVP_MD option" where
  "toy_digests name =
     (if name = ''toy'' then Some toy_md else if name = ''wide'' then Some wide_md else None)"

definition zero_heap :: "nat \<Rightarrow> garbage" where
  "zero_heap k = (\<lambda>i. 0)"



section \<open>Arithmetic of the 32-bit \<^verbatim>\<open>int\<close>\<close>

lemma to_int32_exact: "- 2147483648 \<le> x \<Longrightarrow> x \<le> INT_MAX \<Longrightarrow> to_int32 x = x"
  by (simp add: to_int32_def INT_MAX_def)

lemma to_int32_wrap: "INT_MAX < x \<Longrightarrow> x < 4294967296 \<Longrightarrow> to_int32 x = x - 4294967296"
proof -
  assume a: "INT_MAX < x" "x < 4294967296"
  have "x + 2147483648 = x - 2147483648 + 4294967296" by simp
  then have "(x + 2147483648) mod 4294967296 = (x - 2147483648 + 4294967296) mod 4294967296"
    by (simp only:)
  also have "\<dots> = (x - 2147483648) mod 4294967296"
    by (rule mod_add_self2)
  also have "\<dots> = x - 2147483648"
    using a by (simp add: INT_MAX_def)
  finally show ?thesis by (simp add: to_int32_def)
qed

lemma int_mul_exact: "0 \<le> a * b \<Longrightarrow> a * b \<le> INT_MAX \<Longrightarrow> int_mul a b = a * b"
  by (simp add: int_mul_def to_int32_exact)

lemma int_mul_wrap_neg:
  "INT_MAX < a * b \<Longrightarrow> a * b < 4294967296 \<Longrightarrow> int_mul a b < 0"
  by (simp add: int_mul_def to_int32_wrap)

section \<open>Building a chain\<close>

lemma length_concat_uniform:
  "(\<And>x. x \<in> set xss \<Longrightarrow> length x = d) \<Longrightarrow> length (concat xss) = length xss * d"
  by (induction xss) auto

lemma slice_concat_uniform:
  "(\<And>x. x \<in> set xss \<Longrightarrow> length x = d) \<Longrightarrow> i < length xss \<Longrightarrow>
   take d (drop (i * d) (concat xss @ zs)) = xss ! i"
proof (induction xss arbitrary: i)
  case Nil
  then show ?case by simp
next
  case (Cons x xss)
  show ?case
  proof (cases i)
    case 0
    then show ?thesis using Cons.prems by simp
  next
    case (Suc j)
    have "length x = d" using Cons.prems by simp
    then have "drop (i * d) (concat (x # xss) @ zs) = drop (j * d) (concat xss @ zs)"
      using Suc by simp
    then show ?thesis using Cons Suc by simp
  qed
qed

lemma length_digest_at: "valid_md md \<Longrightarrow> length (digest_at md seed i) = nat (md_size md)"
  unfolding valid_md_def digest_at_def
  by (metis funpow.simps(2) comp_apply nat_int)


lemma length_md_fn: "valid_md md \<Longrightarrow> length (md_fn md x) = nat (md_size md)"
  by (simp add: valid_md_def) (metis nat_int)

lemma length_prefix_digests:
  "valid_md md \<Longrightarrow> length (concat (map (digest_at md seed) [0..<k])) = k * nat (md_size md)"
proof -
  have "length (concat (map (digest_at md seed) [0..<k]))
          = length (map (digest_at md seed) [0..<k]) * nat (md_size md)"
    if "valid_md md"
    by (rule length_concat_uniform) (use that in \<open>auto simp: length_digest_at\<close>)
  then show "valid_md md \<Longrightarrow> ?thesis" by simp
qed

text \<open>What one pass of the loop reads and writes, while the offsets stay in range.\<close>

lemma hash_chain_loop_read:
  assumes v: "valid_md md" and k: "1 \<le> k" "k \<le> n"
    and r: "int (k - 1) * md_size md \<le> INT_MAX"
    and lz: "length zs = (n - k) * nat (md_size md)"
  shows "buf_read (concat (map (digest_at md seed) [0..<k]) @ zs)
           (int_mul (int k - 1) (md_size md)) (md_size md) = Inr (digest_at md seed (k - 1))"
proof -
  let ?d = "nat (md_size md)"
  let ?f = "digest_at md seed"
  let ?pre = "concat (map ?f [0..<k])"
  have dpos: "0 < md_size md" using v by (simp add: valid_md_def)
  have km: "int k - 1 = int (k - 1)" using k by simp
  have ex: "int_mul (int k - 1) (md_size md) = int (k - 1) * md_size md"
    unfolding km using r dpos by (intro int_mul_exact) simp_all
  have lpre: "length ?pre = k * ?d" by (rule length_prefix_digests [OF v])
  have off1: "nat (int (k - 1) * md_size md) = (k - 1) * ?d"
    using dpos by (simp add: nat_mult_distrib)
  have "int (k - 1) * md_size md + md_size md = int k * md_size md"
    using k by (simp add: algebra_simps of_nat_diff)
  moreover have "int k * md_size md = int (k * ?d)" using dpos by simp
  ultimately have inb: "int (k - 1) * md_size md + md_size md \<le> int (length (?pre @ zs))"
    using lpre by simp
  have nonneg: "0 \<le> int (k - 1) * md_size md" using dpos by simp
  have len: "\<And>x. x \<in> set (map ?f [0..<k]) \<Longrightarrow> length x = ?d"
    using length_digest_at [OF v] by auto
  have "take ?d (drop ((k - 1) * ?d) (?pre @ zs)) = map ?f [0..<k] ! (k - 1)"
    using slice_concat_uniform [of "map ?f [0..<k]" ?d "k - 1" zs] len k by simp
  also have "\<dots> = ?f (k - 1)" using k by simp
  finally show ?thesis unfolding ex using inb nonneg dpos off1 by (simp add: buf_read_def)
qed

lemma hash_chain_loop_final:
  "1 \<le> k \<Longrightarrow>
   EVP_DigestFinal_ex (EVP_DigestUpdate (EVP_DigestInit_ex ctx md) (digest_at md seed (k - 1)))
     = digest_at md seed k"
  by (cases k)
    (simp_all add: EVP_DigestFinal_ex_def EVP_DigestUpdate_def EVP_DigestInit_ex_def digest_at_def)

lemma hash_chain_loop_step:
  assumes v: "valid_md md" and k: "1 \<le> k" "k < n"
    and r: "int k * md_size md \<le> INT_MAX"
    and lz: "length zs = (n - k) * nat (md_size md)"
  shows "hash_chain_loop md (md_size md) (int n) (int k) ctx
           (concat (map (digest_at md seed) [0..<k]) @ zs)
       = hash_chain_loop md (md_size md) (int n) (int (Suc k))
           (EVP_DigestUpdate (EVP_DigestInit_ex ctx md) (digest_at md seed (k - 1)))
           (concat (map (digest_at md seed) [0..<Suc k]) @ drop (nat (md_size md)) zs)"
proof -
  let ?d = "nat (md_size md)"
  let ?f = "digest_at md seed"
  let ?pre = "concat (map ?f [0..<k])"
  have dpos: "0 < md_size md" using v by (simp add: valid_md_def)
  have "int (k - 1) * md_size md \<le> int k * md_size md"
    using dpos by (intro mult_right_mono) simp_all
  then have r1: "int (k - 1) * md_size md \<le> INT_MAX" using r by simp
  have rd: "buf_read (?pre @ zs) (int_mul (int k - 1) (md_size md)) (md_size md) = Inr (?f (k - 1))"
    using k by (intro hash_chain_loop_read [OF v _ _ r1 lz]) simp_all
  have fin: "EVP_DigestFinal_ex (EVP_DigestUpdate (EVP_DigestInit_ex ctx md) (?f (k - 1))) = ?f k"
    by (rule hash_chain_loop_final [OF k(1)])
  have ex: "int_mul (int k) (md_size md) = int k * md_size md"
    using r dpos by (intro int_mul_exact) simp_all
  have lpre: "length ?pre = k * ?d" by (rule length_prefix_digests [OF v])
  have lz2: "length zs = ?d + (n - Suc k) * ?d"
    using lz k by (metis Suc_diff_Suc mult_Suc)
  have wr: "buf_write (?pre @ zs) (int_mul (int k) (md_size md)) (?f k)
              = Inr (concat (map ?f [0..<Suc k]) @ drop ?d zs)"
  proof -
    have o: "nat (int k * md_size md) = k * ?d" using dpos by (simp add: nat_mult_distrib)
    have lf: "length (?f k) = ?d" by (rule length_digest_at [OF v])
    have "int k * md_size md + int (length (?f k)) \<le> int (length (?pre @ zs))"
      using lpre lz2 lf dpos by (simp add: algebra_simps)
    moreover have "0 \<le> int k * md_size md" using dpos by simp
    ultimately show ?thesis
      unfolding ex using o lf lpre by (simp add: buf_write_def)
  qed
  have "hash_chain_loop md (md_size md) (int n) (int k) ctx (?pre @ zs) =
        hash_chain_loop md (md_size md) (int n) (int k + 1)
              (EVP_DigestUpdate (EVP_DigestInit_ex ctx md) (?f (k - 1)))
              (concat (map ?f [0..<Suc k]) @ drop ?d zs)"
    using k rd fin wr
    by (subst hash_chain_loop.simps) (simp add: Let_def del: upt_Suc)
  moreover have "int k + 1 = int (Suc k)" by simp
  ultimately show ?thesis by simp
qed

lemma hash_chain_loop_closed:
  assumes v: "valid_md md" and r: "int (n - 1) * md_size md \<le> INT_MAX"
  shows "1 \<le> k \<Longrightarrow> k \<le> n \<Longrightarrow> length zs = (n - k) * nat (md_size md) \<Longrightarrow>
    hash_chain_loop md (md_size md) (int n) (int k) ctx (concat (map (digest_at md seed) [0..<k]) @ zs)
      = Inr (concat (map (digest_at md seed) [0..<n]))"
proof (induction "n - k" arbitrary: k zs ctx)
  case 0
  then have "k = n" by simp
  then show ?case using 0 by (simp add: hash_chain_loop.simps)
next
  case (Suc m)
  let ?d = "nat (md_size md)"
  have kn: "k < n" using Suc.hyps(2) by simp
  have dpos: "0 < md_size md" using v by (simp add: valid_md_def)
  have "int k * md_size md \<le> int (n - 1) * md_size md"
    using kn dpos by (intro mult_right_mono) simp_all
  then have rk: "int k * md_size md \<le> INT_MAX" using r by simp
  have lz: "length zs = ?d + (n - Suc k) * ?d"
    using Suc.prems(3) kn by (metis Suc_diff_Suc mult_Suc)
  then have lz': "length (drop ?d zs) = (n - Suc k) * ?d" by simp
  have "m = n - Suc k" "1 \<le> Suc k" "Suc k \<le> n" using Suc.hyps(2) kn by simp_all
  from Suc.hyps(1) [OF this lz']
  show ?case
    unfolding hash_chain_loop_step [OF v Suc.prems(1) kn rk Suc.prems(3)] .
qed

text \<open>The first index whose offset leaves the range of \<open>int\<close> ends the loop with a write before the block.\<close>

lemma hash_chain_loop_overflow:
  assumes v: "valid_md md"
    and m: "m < n" "int (m - 1) * md_size md \<le> INT_MAX" "INT_MAX < int m * md_size md"
      "int m * md_size md < 4294967296"
  shows "1 \<le> k \<Longrightarrow> k \<le> m \<Longrightarrow> length zs = (n - k) * nat (md_size md) \<Longrightarrow>
    hash_chain_loop md (md_size md) (int n) (int k) ctx (concat (map (digest_at md seed) [0..<k]) @ zs)
      = Inl WriteOutOfBounds"
proof (induction "m - k" arbitrary: k zs ctx)
  case 0
  then have km: "k = m" by simp
  have rd: "buf_read (concat (map (digest_at md seed) [0..<k]) @ zs)
           (int_mul (int k - 1) (md_size md)) (md_size md) = Inr (digest_at md seed (k - 1))"
    using 0 m km by (intro hash_chain_loop_read [OF v, where n = n]) simp_all
  have "int_mul (int k) (md_size md) < 0"
    using m(3,4) km by (intro int_mul_wrap_neg) simp_all
  then have wr: "buf_write (concat (map (digest_at md seed) [0..<k]) @ zs)
      (int_mul (int k) (md_size md)) bs = Inl WriteOutOfBounds" for bs
    by (simp add: buf_write_def)
  show ?case
    using m(1) km rd wr by (subst hash_chain_loop.simps) (simp add: Let_def)
next
  case (Suc j)
  let ?d = "nat (md_size md)"
  have km: "k < m" using Suc.hyps(2) by simp
  then have kn: "k < n" using m(1) by simp
  have dpos: "0 < md_size md" using v by (simp add: valid_md_def)
  have "int k * md_size md \<le> int (m - 1) * md_size md"
    using km dpos by (intro mult_right_mono) simp_all
  then have rk: "int k * md_size md \<le> INT_MAX" using m(2) by simp
  have lz: "length zs = ?d + (n - Suc k) * ?d"
    using Suc.prems(3) kn by (metis Suc_diff_Suc mult_Suc)
  then have lz': "length (drop ?d zs) = (n - Suc k) * ?d" by simp
  have "j = m - Suc k" "1 \<le> Suc k" "Suc k \<le> m" using Suc.hyps(2) km by simp_all
  from Suc.hyps(1) [OF this lz']
  show ?case
    unfolding hash_chain_loop_step [OF v Suc.prems(1) kn rk Suc.prems(3)] .
qed

lemma length_chain_bytes:
  "valid_md md \<Longrightarrow> length (chain_bytes md seed n) = n * nat (md_size md)"
proof -
  have "length (concat (map (digest_at md seed) [0..<n]))
          = length (map (digest_at md seed) [0..<n]) * nat (md_size md)"
    if "valid_md md"
    by (rule length_concat_uniform) (use that in \<open>auto simp: length_digest_at\<close>)
  then show "valid_md md \<Longrightarrow> ?thesis" by (simp add: chain_bytes_def)
qed

lemma slice_chain_bytes:
  assumes "valid_md md" "i < n"
  shows "take (nat (md_size md)) (drop (i * nat (md_size md)) (chain_bytes md seed n))
           = digest_at md seed i"
proof -
  have "take (nat (md_size md)) (drop (i * nat (md_size md)) (chain_bytes md seed n @ []))
          = map (digest_at md seed) [0..<n] ! i"
    unfolding chain_bytes_def
    by (rule slice_concat_uniform) (use assms in \<open>auto simp: length_digest_at\<close>)
  then show ?thesis using assms by simp
qed

lemma hash_chain_create_first:
  assumes v: "valid_md md" and n: "1 \<le> n"
    and b: "0 \<le> baselen" "baselen \<le> int (length base)"
  shows "hash_chain_create base baselen md (int n) =
    (case hash_chain_loop md (md_size md) (int n) (int 1)
            (EVP_DigestUpdate (EVP_DigestInit_ex EVP_MD_CTX_create md) (take (nat baselen) base))
            (concat (map (digest_at md (take (nat baselen) base)) [0..<1])
               @ replicate ((n - 1) * nat (md_size md)) 0) of
       Inl e \<Rightarrow> Inl e
     | Inr buf \<Rightarrow> Inr \<lparr>digest_size = md_size md, chain_length = int n, data = buf\<rparr>)"
proof -
  let ?d = "nat (md_size md)"
  let ?seed = "take (nat baselen) base"
  have rd: "buf_read base 0 baselen = Inr ?seed"
    using b by (simp add: buf_read_def)
  have fin: "EVP_DigestFinal_ex (EVP_DigestUpdate (EVP_DigestInit_ex EVP_MD_CTX_create md) ?seed)
               = digest_at md ?seed 0"
    by (simp add: EVP_DigestFinal_ex_def EVP_DigestUpdate_def EVP_DigestInit_ex_def
        EVP_MD_CTX_create_def digest_at_def)
  have lf: "length (digest_at md ?seed 0) = ?d" by (rule length_digest_at [OF v])
  have ca: "calloc (int n) (md_size md) = replicate ?d 0 @ replicate ((n - 1) * ?d) 0"
    using n by (simp add: calloc_def replicate_add [symmetric] algebra_simps)
  have wr: "buf_write (calloc (int n) (md_size md)) 0 (digest_at md ?seed 0)
              = Inr (concat (map (digest_at md ?seed) [0..<1]) @ replicate ((n - 1) * ?d) 0)"
    unfolding ca using lf by (simp add: buf_write_def)
  show ?thesis
    using rd fin wr
    by (simp add: hash_chain_create_def EVP_MD_size_def Let_def)
qed

lemma hash_chain_create_closed:
  assumes v: "valid_md md" and n: "1 \<le> n" and r: "int (n - 1) * md_size md \<le> INT_MAX"
    and b: "0 \<le> baselen" "baselen \<le> int (length base)"
  shows "hash_chain_create base baselen md (int n) =
    Inr \<lparr>digest_size = md_size md, chain_length = int n,
         data = chain_bytes md (take (nat baselen) base) n\<rparr>"
proof -
  have "hash_chain_loop md (md_size md) (int n) (int 1)
              (EVP_DigestUpdate (EVP_DigestInit_ex EVP_MD_CTX_create md) (take (nat baselen) base))
              (concat (map (digest_at md (take (nat baselen) base)) [0..<1])
                 @ replicate ((n - 1) * nat (md_size md)) 0)
            = Inr (concat (map (digest_at md (take (nat baselen) base)) [0..<n]))"
    by (rule hash_chain_loop_closed [OF v r]) (use n in auto)
  then show ?thesis
    unfolding hash_chain_create_first [OF v n b] by (simp add: chain_bytes_def)
qed

lemma hash_chain_create_overflow:
  assumes v: "valid_md md"
    and m: "1 \<le> m" "m < n" "int (m - 1) * md_size md \<le> INT_MAX" "INT_MAX < int m * md_size md"
      "int m * md_size md < 4294967296"
    and b: "0 \<le> baselen" "baselen \<le> int (length base)"
  shows "hash_chain_create base baselen md (int n) = Inl WriteOutOfBounds"
proof -
  have n: "1 \<le> n" using m by simp
  have "hash_chain_loop md (md_size md) (int n) (int 1)
              (EVP_DigestUpdate (EVP_DigestInit_ex EVP_MD_CTX_create md) (take (nat baselen) base))
              (concat (map (digest_at md (take (nat baselen) base)) [0..<1])
                 @ replicate ((n - 1) * nat (md_size md)) 0)
            = Inl WriteOutOfBounds"
    by (rule hash_chain_loop_overflow [OF v m(2,3,4,5)]) (use m in auto)
  then show ?thesis
    unfolding hash_chain_create_first [OF v n b] by simp
qed

lemma hash_chain_create_beyond:
  assumes v: "valid_md md" and d: "md_size md \<le> INT_MAX"
    and n: "INT_MAX < int (n - 1) * md_size md"
    and b: "0 \<le> baselen" "baselen \<le> int (length base)"
  shows "hash_chain_create base baselen md (int n) = Inl WriteOutOfBounds"
proof -
  have dpos: "0 < md_size md" using v by (simp add: valid_md_def)
  define q where "q = INT_MAX div md_size md"
  define m where "m = Suc (nat q)"
  have q0: "0 \<le> q" using dpos by (simp add: q_def INT_MAX_def pos_imp_zdiv_nonneg_iff)
  have mq: "int (m - 1) = q" "int m = q + 1" using q0 by (simp_all add: m_def)
  have e: "INT_MAX = q * md_size md + INT_MAX mod md_size md" by (simp add: q_def)
  have r0: "0 \<le> INT_MAX mod md_size md" "INT_MAX mod md_size md < md_size md"
    using dpos by simp_all
  have a: "int (m - 1) * md_size md \<le> INT_MAX"
    unfolding mq using e r0 by linarith
  have "int m * md_size md = q * md_size md + md_size md"
    unfolding mq by (simp add: algebra_simps)
  then have bb: "INT_MAX < int m * md_size md" and c: "int m * md_size md \<le> INT_MAX + md_size md"
    using e r0 by linarith+
  have c': "int m * md_size md < 4294967296"
    using c d by (simp add: INT_MAX_def)
  have "int (m - 1) * md_size md < int (n - 1) * md_size md" using a n by simp
  then have "int (m - 1) < int (n - 1)" using dpos by (simp add: mult_less_cancel_right)
  then have "m - 1 < n - 1" by (simp only: of_nat_less_iff)
  then have mn: "m < n" by (simp add: m_def)
  show ?thesis
    by (rule hash_chain_create_overflow [OF v _ mn a bb c' b]) (simp add: m_def)
qed

lemma hash_chain_create_no_room:
  assumes v: "valid_md md" and n: "chain_len \<le> 0"
    and b: "0 \<le> baselen" "baselen \<le> int (length base)"
  shows "hash_chain_create base baselen md chain_len = Inl WriteOutOfBounds"
proof -
  have "calloc chain_len (md_size md) = []" using n by (simp add: calloc_def)
  moreover have "buf_read base 0 baselen = Inr (take (nat baselen) base)"
    using b by (simp add: buf_read_def)
  moreover have "length (EVP_DigestFinal_ex (EVP_DigestUpdate
        (EVP_DigestInit_ex EVP_MD_CTX_create md) (take (nat baselen) base))) = nat (md_size md)"
    using v by (simp add: EVP_DigestFinal_ex_def EVP_DigestUpdate_def EVP_DigestInit_ex_def
        valid_md_def) (metis nat_int)
  moreover have "0 < md_size md" using v by (simp add: valid_md_def)
  ultimately show ?thesis
    by (simp add: hash_chain_create_def EVP_MD_size_def Let_def buf_write_def)
qed

text \<open>Every chain the function returns is the chain of the iterated digests.\<close>

lemma hash_chain_create_built:
  assumes v: "valid_md md" and d: "md_size md \<le> INT_MAX"
    and c: "hash_chain_create base baselen md chain_len = Inr chain"
  shows "1 \<le> chain_len \<and> (chain_len - 1) * md_size md \<le> INT_MAX
       \<and> 0 \<le> baselen \<and> baselen \<le> int (length base)
       \<and> chain = \<lparr>digest_size = md_size md, chain_length = chain_len,
                   data = chain_bytes md (take (nat baselen) base) (nat chain_len)\<rparr>"
proof -
  have b: "0 \<le> baselen \<and> baselen \<le> int (length base)"
  proof (rule ccontr)
    assume "\<not> ?thesis"
    then have "buf_read base 0 baselen = Inl ReadOutOfBounds" by (auto simp: buf_read_def)
    then show False using c by (simp add: hash_chain_create_def Let_def)
  qed
  have n1: "1 \<le> chain_len"
  proof (rule ccontr)
    assume "\<not> ?thesis"
    then have "chain_len \<le> 0" by simp
    then show False using hash_chain_create_no_room [OF v _ b [THEN conjunct1] b [THEN conjunct2]] c
      by simp
  qed
  define n where "n = nat chain_len"
  have n: "1 \<le> n" "chain_len = int n" "chain_len - 1 = int (n - 1)" using n1 by (simp_all add: n_def)
  have r: "int (n - 1) * md_size md \<le> INT_MAX"
  proof (rule ccontr)
    assume "\<not> ?thesis"
    then have "INT_MAX < int (n - 1) * md_size md" by simp
    then show False
      using hash_chain_create_beyond [OF v d _ b [THEN conjunct1] b [THEN conjunct2], of n] c n(2)
      by simp
  qed
  have "hash_chain_create base baselen md (int n) =
    Inr \<lparr>digest_size = md_size md, chain_length = int n,
         data = chain_bytes md (take (nat baselen) base) n\<rparr>"
    using b by (intro hash_chain_create_closed [OF v n(1) r]) simp_all
  then have "Inr chain = (Inr \<lparr>digest_size = md_size md, chain_length = int n,
         data = chain_bytes md (take (nat baselen) base) n\<rparr> :: mem_error + hash_chain)"
    using c by (simp only: n(2))
  then have "chain = \<lparr>digest_size = md_size md, chain_length = chain_len,
         data = chain_bytes md (take (nat baselen) base) (nat chain_len)\<rparr>"
    using n1 by (simp add: n_def)
  moreover have "(chain_len - 1) * md_size md \<le> INT_MAX" using r by (simp only: n(3))
  ultimately show ?thesis using b n1 by simp
qed

lemma hash_chain_elem_closed:
  assumes v: "valid_md md" and i: "0 \<le> i" "i < int n"
    and r: "int (n - 1) * md_size md \<le> INT_MAX"
  shows "hash_chain_elem \<lparr>digest_size = md_size md, chain_length = int n,
            data = chain_bytes md seed n\<rparr> i = Inr (digest_at md seed (nat i))"
proof -
  let ?d = "nat (md_size md)"
  have dpos: "0 < md_size md" using v by (simp add: valid_md_def)
  have "i * md_size md \<le> int (n - 1) * md_size md"
    using i dpos by (intro mult_right_mono) auto
  then have "i * md_size md \<le> INT_MAX" using r by simp
  then have ex: "int_mul i (md_size md) = i * md_size md"
    using i dpos by (intro int_mul_exact) simp_all
  have "i * md_size md + md_size md = (i + 1) * md_size md" by (simp add: algebra_simps)
  also have "\<dots> \<le> int n * md_size md"
    using i dpos by (intro mult_right_mono) auto
  also have "\<dots> = int (n * ?d)" using dpos by simp
  finally have inb: "i * md_size md + md_size md \<le> int (length (chain_bytes md seed n))"
    by (simp add: length_chain_bytes [OF v])
  have off: "nat (i * md_size md) = nat i * ?d"
    using i dpos by (simp add: nat_mult_distrib)
  have "nat i < n" using i by simp
  then have "take ?d (drop (nat i * ?d) (chain_bytes md seed n)) = digest_at md seed (nat i)"
    by (rule slice_chain_bytes [OF v])
  then show ?thesis
    unfolding hash_chain_elem_def using inb i dpos off by (simp add: ex buf_read_def)
qed

lemma product_bound:
  assumes "0 < d" "1 \<le> n" "int n * d \<le> INT_MAX"
  shows "int (n - 1) * d \<le> INT_MAX"
proof -
  have "int (n - 1) * d \<le> int n * d" using assms(1) by (intro mult_right_mono) simp_all
  then show ?thesis using assms(3) by simp
qed

lemma valid_toy_md: "valid_md toy_md"
  by (simp add: valid_md_def toy_md_def)





text \<open>
  Claim C9, amended. For a valid algorithm (digest size \<open>d \<ge> 1\<close>) and \<open>chain_len \<ge> 1\<close> with
  \<open>chain_len * d \<le> INT_MAX\<close>, every write of \<open>hash_chain_create\<close> lies inside the
  \<open>chain_len * d\<close> bytes it allocated: the call ends without a memory error, the offset
  the code computes for element \<open>i\<close> is \<open>i * d\<close>, and element \<open>i\<close> occupies the bytes from
  \<open>i * d\<close> below \<open>(i + 1) * d\<close> of the buffer for \<open>0 \<le> i < chain_len\<close>. Both preconditions
  are needed: the first digest is written before \<open>chain_len\<close> is looked at, and with
  \<open>chain_len \<le> 0\<close> that write falls outside the block; and once \<open>(chain_len - 1) * d\<close>
  exceeds \<open>INT_MAX\<close> the offset of some element wraps and its write falls outside the block.
\<close>

theorem hash_chain_create_writes_in_bounds:
  assumes "valid_md type" and "0 \<le> baselen" and "baselen \<le> int (length base)"
  shows "(1 \<le> chain_len \<and> chain_len * md_size type \<le> INT_MAX \<longrightarrow>
           (\<exists>chain. hash_chain_create base baselen type chain_len = Inr chain
              \<and> int (length (data chain)) = chain_len * md_size type
              \<and> (\<forall>i. 0 \<le> i \<and> i < chain_len \<longrightarrow>
                    int_mul i (md_size type) = i * md_size type
                  \<and> 0 \<le> i * md_size type
                  \<and> i * md_size type + md_size type \<le> int (length (data chain))
                  \<and> hash_chain_elem chain i = Inr (digest_at type (take (nat baselen) base) (nat i)))))
       \<and> (chain_len \<le> 0 \<longrightarrow>
            hash_chain_create base baselen type chain_len = Inl WriteOutOfBounds)
       \<and> (md_size type \<le> INT_MAX \<and> INT_MAX < (chain_len - 1) * md_size type \<longrightarrow>
            hash_chain_create base baselen type chain_len = Inl WriteOutOfBounds)"
proof (intro conjI impI)
  assume a: "1 \<le> chain_len \<and> chain_len * md_size type \<le> INT_MAX"
  define n where "n = nat chain_len"
  have n1: "1 \<le> chain_len" using a by simp
  have n: "1 \<le> n" "chain_len = int n" using n1 by (simp_all add: n_def)
  let ?seed = "take (nat baselen) base"
  let ?chain = "\<lparr>digest_size = md_size type, chain_length = int n,
                  data = chain_bytes type ?seed n\<rparr>"
  have dpos: "0 < md_size type" using assms(1) by (simp add: valid_md_def)
  have r0: "int n * md_size type \<le> INT_MAX" using a unfolding n(2) by simp
  have r: "int (n - 1) * md_size type \<le> INT_MAX"
    using r0 by (rule product_bound [OF dpos n(1)])
  have cr: "hash_chain_create base baselen type (int n) = Inr ?chain"
    by (rule hash_chain_create_closed [OF assms(1) n(1) r assms(2,3)])
  have ld: "int (length (data ?chain)) = int n * md_size type"
    using length_chain_bytes [OF assms(1)] dpos by simp
  have inb: "int_mul i (md_size type) = i * md_size type
      \<and> 0 \<le> i * md_size type \<and> i * md_size type + md_size type \<le> int (length (data ?chain))
      \<and> hash_chain_elem ?chain i = Inr (digest_at type ?seed (nat i))"
    if i: "0 \<le> i" "i < int n" for i
  proof -
    have "i * md_size type + md_size type = (i + 1) * md_size type" by (simp add: algebra_simps)
    also have "\<dots> \<le> int n * md_size type" using i dpos by (intro mult_right_mono) auto
    finally have le: "i * md_size type + md_size type \<le> int n * md_size type" .
    then have "i * md_size type \<le> INT_MAX" using r0 dpos by linarith
    then have "int_mul i (md_size type) = i * md_size type"
      using i dpos by (intro int_mul_exact) simp_all
    then show ?thesis
      using le ld i dpos hash_chain_elem_closed [OF assms(1) i r] by simp
  qed
  show "\<exists>chain. hash_chain_create base baselen type chain_len = Inr chain
              \<and> int (length (data chain)) = chain_len * md_size type
              \<and> (\<forall>i. 0 \<le> i \<and> i < chain_len \<longrightarrow>
                    int_mul i (md_size type) = i * md_size type
                  \<and> 0 \<le> i * md_size type
                  \<and> i * md_size type + md_size type \<le> int (length (data chain))
                  \<and> hash_chain_elem chain i = Inr (digest_at type (take (nat baselen) base) (nat i)))"
    unfolding n(2) using cr ld inb by (intro exI [of _ ?chain]) simp
next
  assume "chain_len \<le> 0"
  then show "hash_chain_create base baselen type chain_len = Inl WriteOutOfBounds"
    by (rule hash_chain_create_no_room [OF assms(1) _ assms(2,3)])
next
  assume a: "md_size type \<le> INT_MAX \<and> INT_MAX < (chain_len - 1) * md_size type"
  have dpos: "0 < md_size type" using assms(1) by (simp add: valid_md_def)
  have "0 < (chain_len - 1) * md_size type" using a by (simp add: INT_MAX_def)
  then have "0 < chain_len - 1" using dpos by (simp add: zero_less_mult_iff)
  then have n: "chain_len = int (nat chain_len)" "chain_len - 1 = int (nat chain_len - 1)" by simp_all
  have "hash_chain_create base baselen type (int (nat chain_len)) = Inl WriteOutOfBounds"
    using a unfolding n(2)
    by (intro hash_chain_create_beyond [OF assms(1) _ _ assms(2,3)]) simp_all
  then show "hash_chain_create base baselen type chain_len = Inl WriteOutOfBounds"
    using n(1) by simp
qed

theorem hash_chain_create_writes_in_bounds_witness:
  "valid_md toy_md \<and> (0::int) \<le> 2 \<and> (2::int) \<le> int (length [104, 105 :: byte])
   \<and> (\<exists>chain. hash_chain_create [104, 105] 2 toy_md 3 = Inr chain
         \<and> int (length (data chain)) = 6)
   \<and> hash_chain_create [104, 105] 2 toy_md 0 = Inl WriteOutOfBounds
   \<and> hash_chain_create [104, 105] 2 toy_md 1073741826 = Inl WriteOutOfBounds"
  using hash_chain_create_writes_in_bounds [of toy_md 2 "[104, 105]" 3]
    hash_chain_create_writes_in_bounds [of toy_md 2 "[104, 105]" 0]
    hash_chain_create_writes_in_bounds [of toy_md 2 "[104, 105]" 1073741826] valid_toy_md
  by (auto simp: toy_md_def INT_MAX_def)

text \<open>
  With the 2-byte digest and 1073741825 elements the length is at least 1 and the
  algorithm valid, yet the write of the last element is out of bounds: its offset
  \<open>1073741824 * 2\<close> wraps to \<open>- 2147483648\<close>.
\<close>

theorem hash_chain_create_writes_in_bounds_counterexample:
  "valid_md toy_md \<and> (1::int) \<le> 1073741825 \<and> 1 \<le> md_size toy_md
   \<and> int_mul 1073741824 (md_size toy_md) = - 2147483648
   \<and> hash_chain_create [104, 105] 2 toy_md 1073741825 = Inl WriteOutOfBounds"
proof -
  have "hash_chain_create [104, 105] 2 toy_md (int 1073741825) = Inl WriteOutOfBounds"
    by (rule hash_chain_create_overflow [OF valid_toy_md, where m = 1073741824])
      (simp_all add: toy_md_def INT_MAX_def)
  moreover have "int_mul 1073741824 (md_size toy_md) = - 2147483648"
    by (simp add: int_mul_def to_int32_def toy_md_def)
  ultimately show ?thesis using valid_toy_md by (simp add: toy_md_def)
qed

section \<open>Verifying a link\<close>

lemma memcmp_bytes_zero_iff:
  "length a = length b \<Longrightarrow> memcmp_bytes a b = 0 \<longleftrightarrow> a = b"
proof (induction a b rule: list_induct2')
  case (4 x xs y ys)
  then show ?case by (auto simp: word_uint_eq_iff)
qed simp_all

lemma hash_chain_verify_result:
  assumes v: "valid_md md"
  shows "hash_chain_verify g h tip md =
    (if length h < nat (md_size md) \<or> length tip < nat (md_size md) then Inl ReadOutOfBounds
     else Inr (md_fn md (take (nat (md_size md)) h) = take (nat (md_size md)) tip))"
proof -
  let ?d = "nat (md_size md)"
  have dpos: "0 < md_size md" using v by (simp add: valid_md_def)
  have len: "\<And>x. length (md_fn md x) = ?d"
    using v by (simp add: valid_md_def) (metis nat_int)
  show ?thesis
  proof (cases "length h < ?d")
    case True
    then have "buf_read h 0 (md_size md) = Inl ReadOutOfBounds"
      using dpos by (simp add: buf_read_def)
    then show ?thesis using True by (simp add: hash_chain_verify_def EVP_MD_size_def Let_def)
  next
    case False
    let ?hb = "take ?d h"
    have rd: "buf_read h 0 (md_size md) = Inr ?hb"
      using False dpos by (simp add: buf_read_def)
    have fin: "EVP_DigestFinal_ex (EVP_DigestUpdate (EVP_DigestInit_ex EVP_MD_CTX_create md) ?hb)
                 = md_fn md ?hb"
      by (simp add: EVP_DigestFinal_ex_def EVP_DigestUpdate_def EVP_DigestInit_ex_def)
    have wr: "buf_write (malloc g (md_size md)) 0 (md_fn md ?hb) = Inr (md_fn md ?hb)"
      using len dpos by (simp add: buf_write_def malloc_def)
    have r1: "buf_read (md_fn md ?hb) 0 (md_size md) = Inr (md_fn md ?hb)"
      using len dpos by (simp add: buf_read_def)
    show ?thesis
    proof (cases "length tip < ?d")
      case True
      then have "buf_read tip 0 (md_size md) = Inl ReadOutOfBounds"
        using dpos by (simp add: buf_read_def)
      then show ?thesis
        using True False rd fin wr r1
        by (simp add: hash_chain_verify_def EVP_MD_size_def Let_def memcmp_def)
    next
      case tip: False
      have r2: "buf_read tip 0 (md_size md) = Inr (take ?d tip)"
        using tip dpos by (simp add: buf_read_def)
      have "length (md_fn md ?hb) = length (take ?d tip)" using len tip by simp
      then have "memcmp_bytes (md_fn md ?hb) (take ?d tip) = 0 \<longleftrightarrow> md_fn md ?hb = take ?d tip"
        by (rule memcmp_bytes_zero_iff)
      then show ?thesis
        using tip False rd fin wr r1 r2
        by (simp add: hash_chain_verify_def EVP_MD_size_def Let_def memcmp_def)
    qed
  qed
qed

text \<open>Adjacent elements of the chain of the iterated digests verify.\<close>

lemma hash_chain_verify_link:
  assumes v: "valid_md md" and r: "int (n - 1) * md_size md \<le> INT_MAX"
    and i: "1 \<le> i" "i < int n"
  shows "\<exists>prev cur. hash_chain_elem \<lparr>digest_size = md_size md, chain_length = int n,
                          data = chain_bytes md seed n\<rparr> (i - 1) = Inr prev
            \<and> hash_chain_elem \<lparr>digest_size = md_size md, chain_length = int n,
                          data = chain_bytes md seed n\<rparr> i = Inr cur
            \<and> hash_chain_verify g prev cur md = Inr True"
proof -
  let ?prev = "digest_at md seed (nat (i - 1))"
  let ?cur = "digest_at md seed (nat i)"
  let ?chain = "\<lparr>digest_size = md_size md, chain_length = int n, data = chain_bytes md seed n\<rparr>"
  have p: "hash_chain_elem ?chain (i - 1) = Inr ?prev"
    using i by (intro hash_chain_elem_closed [OF v _ _ r]) simp_all
  have c: "hash_chain_elem ?chain i = Inr ?cur"
    using i by (intro hash_chain_elem_closed [OF v _ _ r]) simp_all
  have "nat i = Suc (nat (i - 1))" using i by simp
  then have "?cur = md_fn md ?prev" by (simp add: digest_at_def)
  then have "hash_chain_verify g ?prev ?cur md = Inr True"
    using length_digest_at [OF v, of seed] length_md_fn [OF v]
    by (simp add: hash_chain_verify_result [OF v])
  then show ?thesis using p c by blast
qed

text \<open>
  Claim C2. For a candidate and a tip of the algorithm's digest length,
  \<open>hash_chain_verify\<close> returns true exactly when the hash of the candidate equals the
  tip byte for byte, and false (a value, not an error) otherwise; and for every chain
  that \<open>hash_chain_create\<close> built (the digest size being an \<^verbatim>\<open>int\<close>) and every \<open>i\<close> with
  \<open>1 \<le> i < length\<close>, verifying element \<open>i - 1\<close> against element \<open>i\<close> returns true. Such
  chains exist: one is built for every length of at least 1 with
  \<open>chain_len * d \<le> INT_MAX\<close>.
\<close>

theorem hash_chain_verify_iff:
  assumes "valid_md algorithm"
  shows "(int (length candidate) = md_size algorithm \<and> int (length tip) = md_size algorithm \<longrightarrow>
            hash_chain_verify g candidate tip algorithm = Inr (md_fn algorithm candidate = tip))
       \<and> (md_size algorithm \<le> INT_MAX
            \<and> hash_chain_create base baselen algorithm chain_len = Inr chain \<longrightarrow>
           (\<forall>i. 1 \<le> i \<and> i < chain_len \<longrightarrow>
                  (\<exists>prev cur. hash_chain_elem chain (i - 1) = Inr prev
                      \<and> hash_chain_elem chain i = Inr cur
                      \<and> hash_chain_verify g prev cur algorithm = Inr True)))
       \<and> (1 \<le> chain_len \<and> chain_len * md_size algorithm \<le> INT_MAX
            \<and> 0 \<le> baselen \<and> baselen \<le> int (length base) \<longrightarrow>
           (\<exists>built. hash_chain_create base baselen algorithm chain_len = Inr built))"
proof (intro conjI impI allI)
  assume a: "int (length candidate) = md_size algorithm \<and> int (length tip) = md_size algorithm"
  then have "length candidate = nat (md_size algorithm)" "length tip = nat (md_size algorithm)"
    by linarith+
  then show "hash_chain_verify g candidate tip algorithm = Inr (md_fn algorithm candidate = tip)"
    by (simp add: hash_chain_verify_result [OF assms])
next
  fix i
  assume a: "md_size algorithm \<le> INT_MAX
            \<and> hash_chain_create base baselen algorithm chain_len = Inr chain"
    and i: "1 \<le> i \<and> i < chain_len"
  define n where "n = nat chain_len"
  note b = hash_chain_create_built [OF assms a [THEN conjunct1] a [THEN conjunct2]]
  have n1: "1 \<le> chain_len" using b by simp
  have n: "chain_len = int n" "chain_len - 1 = int (n - 1)"
    using n1 unfolding n_def by linarith+
  have r: "int (n - 1) * md_size algorithm \<le> INT_MAX" using b by (simp only: n(2))
  have c: "chain = \<lparr>digest_size = md_size algorithm, chain_length = int n,
                    data = chain_bytes algorithm (take (nat baselen) base) n\<rparr>"
    using b by (simp add: n_def)
  have i': "1 \<le> i" "i < int n" using i by (simp_all add: n(1))
  show "\<exists>prev cur. hash_chain_elem chain (i - 1) = Inr prev
                      \<and> hash_chain_elem chain i = Inr cur
                      \<and> hash_chain_verify g prev cur algorithm = Inr True"
    unfolding c by (rule hash_chain_verify_link [OF assms r i'])
next
  assume a: "1 \<le> chain_len \<and> chain_len * md_size algorithm \<le> INT_MAX
            \<and> 0 \<le> baselen \<and> baselen \<le> int (length base)"
  define n where "n = nat chain_len"
  have n1: "1 \<le> chain_len" using a by simp
  have n: "1 \<le> n" "chain_len = int n" using n1 by (simp_all add: n_def)
  have dpos: "0 < md_size algorithm" using assms by (simp add: valid_md_def)
  have "int n * md_size algorithm \<le> INT_MAX" using a by (simp add: n(2))
  then have r: "int (n - 1) * md_size algorithm \<le> INT_MAX"
    by (rule product_bound [OF dpos n(1)])
  show "\<exists>built. hash_chain_create base baselen algorithm chain_len = Inr built"
    unfolding n(2) using a hash_chain_create_closed [OF assms n(1) r, of baselen base] by simp
qed

theorem hash_chain_verify_iff_witness:
  "valid_md toy_md
   \<and> int (length [210, 2 :: byte]) = md_size toy_md \<and> int (length [213, 2 :: byte]) = md_size toy_md
   \<and> hash_chain_verify (\<lambda>i. 0) [210, 2] [213, 2] toy_md = Inr True
   \<and> hash_chain_verify (\<lambda>i. 0) [210, 2] [216, 2] toy_md = Inr False
   \<and> md_size toy_md \<le> INT_MAX
   \<and> hash_chain_create [104, 105] 2 toy_md 3
        = Inr \<lparr>digest_size = 2, chain_length = 3, data = [210, 2, 213, 2, 216, 2]\<rparr>
   \<and> (1::int) \<le> 2 \<and> (2::int) < 3
   \<and> hash_chain_elem \<lparr>digest_size = 2, chain_length = 3, data = [210, 2, 213, 2, 216, 2]\<rparr> 1
        = Inr [213, 2]
   \<and> hash_chain_elem \<lparr>digest_size = 2, chain_length = 3, data = [210, 2, 213, 2, 216, 2]\<rparr> 2
        = Inr [216, 2]
   \<and> hash_chain_verify (\<lambda>i. 0) [213, 2] [216, 2] toy_md = Inr True"
proof -
  note t = hash_chain_verify_iff [OF valid_toy_md]
  let ?chain = "\<lparr>digest_size = 2, chain_length = 3, data = [210, 2, 213, 2, 216, 2 :: byte]\<rparr>"
  have a: "hash_chain_verify (\<lambda>i. 0) [210, 2] [213, 2] toy_md = Inr True"
    using t [of "[210, 2]" "[213, 2]" "\<lambda>i. 0"] by (simp add: toy_md_def)
  have b: "hash_chain_verify (\<lambda>i. 0) [210, 2] [216, 2] toy_md = Inr False"
    using t [of "[210, 2]" "[216, 2]" "\<lambda>i. 0"] by (simp add: toy_md_def)
  have s: "md_size toy_md \<le> INT_MAX" by (simp add: toy_md_def INT_MAX_def)
  have cb: "chain_bytes toy_md [104, 105] 3 = [210, 2, 213, 2, 216, 2]"
    by (simp add: chain_bytes_def digest_at_def toy_md_def upt_rec numeral_3_eq_3)
  have "hash_chain_create [104, 105] 2 toy_md (int 3) =
     Inr \<lparr>digest_size = md_size toy_md, chain_length = int 3,
          data = chain_bytes toy_md (take (nat 2) [104, 105]) 3\<rparr>"
    by (rule hash_chain_create_closed [OF valid_toy_md]) (simp_all add: toy_md_def INT_MAX_def)
  then have c: "hash_chain_create [104, 105] 2 toy_md 3 = Inr ?chain"
    using cb by (simp add: toy_md_def)
  have e1: "hash_chain_elem ?chain 1 = Inr [213, 2]"
    by (simp add: hash_chain_elem_def int_mul_def to_int32_def buf_read_def)
  have e2: "hash_chain_elem ?chain 2 = Inr [216, 2]"
    by (simp add: hash_chain_elem_def int_mul_def to_int32_def buf_read_def)
  have "\<forall>i. 1 \<le> i \<and> i < 3 \<longrightarrow>
          (\<exists>prev cur. hash_chain_elem ?chain (i - 1) = Inr prev
                      \<and> hash_chain_elem ?chain i = Inr cur
                      \<and> hash_chain_verify (\<lambda>i. 0) prev cur toy_md = Inr True)"
    using t [of "[]" "[]" "\<lambda>i. 0" "[104, 105]" 2 3 ?chain] s c by simp
  from this [rule_format, of 2] have l: "hash_chain_verify (\<lambda>i. 0) [213, 2] [216, 2] toy_md = Inr True"
    using e1 e2 by simp
  show ?thesis using a b c s e1 e2 l valid_toy_md by (simp add: toy_md_def)
qed

text \<open>
  Claim C10. The result of \<open>hash_chain_verify\<close> depends only on the first
  \<open>EVP_MD_size\<close> bytes of its two inputs: two calls with the same algorithm whose
  candidates agree on those bytes and whose tips agree on those bytes return the same
  result, whatever follows in the buffers and whatever the heap held.
\<close>

theorem hash_chain_verify_prefix_only:
  assumes "valid_md algorithm"
    and "take (nat (md_size algorithm)) h = take (nat (md_size algorithm)) h'"
    and "take (nat (md_size algorithm)) tip = take (nat (md_size algorithm)) tip'"
  shows "hash_chain_verify g h tip algorithm = hash_chain_verify g' h' tip' algorithm"
proof -
  let ?d = "nat (md_size algorithm)"
  have "length (take ?d h) = length (take ?d h')" using assms(2) by simp
  then have "length h < ?d \<longleftrightarrow> length h' < ?d" by (simp add: min_def split: if_splits)
  moreover have "length (take ?d tip) = length (take ?d tip')" using assms(3) by simp
  then have "length tip < ?d \<longleftrightarrow> length tip' < ?d" by (simp add: min_def split: if_splits)
  ultimately show ?thesis
    using assms(2,3) by (simp add: hash_chain_verify_result [OF assms(1)])
qed

theorem hash_chain_verify_prefix_only_witness:
  "valid_md toy_md
   \<and> take (nat (md_size toy_md)) [210, 2, 7 :: byte] = take (nat (md_size toy_md)) [210, 2, 8, 9]
   \<and> take (nat (md_size toy_md)) [213, 2 :: byte] = take (nat (md_size toy_md)) [213, 2, 1]
   \<and> hash_chain_verify (\<lambda>i. 0) [210, 2, 7] [213, 2] toy_md
       = hash_chain_verify (\<lambda>i. 1) [210, 2, 8, 9] [213, 2, 1] toy_md"
  using hash_chain_verify_prefix_only [OF valid_toy_md,
      of "[210, 2, 7]" "[210, 2, 8, 9]" "[213, 2]" "[213, 2, 1]" "\<lambda>i. 0" "\<lambda>i. 1"] valid_toy_md
  by (simp add: toy_md_def)

section \<open>The base64 codec\<close>

lemma length_b64_alphabet: "length b64_alphabet = 64"
  by (simp add: b64_alphabet_def)

lemma distinct_b64_alphabet: "distinct b64_alphabet"
  by (simp add: b64_alphabet_def)

lemma index_of_nth: "distinct xs \<Longrightarrow> i < length xs \<Longrightarrow> index_of (xs ! i) xs = Some i"
proof (induction xs arbitrary: i)
  case Nil
  then show ?case by simp
next
  case (Cons x xs)
  then show ?case by (cases i) auto
qed

lemma index_of_None: "c \<notin> set xs \<Longrightarrow> index_of c xs = None"
  by (induction xs) auto

lemma conv_bin2ascii_in: "conv_bin2ascii a \<in> set b64_alphabet"
  by (simp add: conv_bin2ascii_def length_b64_alphabet)

lemma conv_ascii2bin_bin2ascii: "conv_ascii2bin (conv_bin2ascii a) = a mod 64"
  using index_of_nth [OF distinct_b64_alphabet, of "a mod 64"]
  by (simp add: conv_ascii2bin_def conv_bin2ascii_def length_b64_alphabet)

lemma eq_notin_alphabet: "CHR ''='' \<notin> set b64_alphabet"
  by (simp add: b64_alphabet_def)

lemma newline_notin_alphabet: "newline \<notin> set b64_alphabet"
  by (simp add: b64_alphabet_def newline_def)

lemma conv_bin2ascii_neq: "conv_bin2ascii a \<noteq> CHR ''=''" "conv_bin2ascii a \<noteq> newline"
  using conv_bin2ascii_in [of a] eq_notin_alphabet newline_notin_alphabet by auto

lemma conv_ascii2bin_eq: "conv_ascii2bin CHR ''='' = 0"
  by (simp add: conv_ascii2bin_def index_of_None [OF eq_notin_alphabet])


lemma sextets_sum:
  fixes l :: nat
  assumes "l < 16777216"
  shows "(l div 262144) mod 64 * 262144 + (l div 4096) mod 64 * 4096
           + (l div 64) mod 64 * 64 + l mod 64 = l"
proof -
  define q1 where "q1 = l div 64"
  define q2 where "q2 = q1 div 64"
  define q3 where "q3 = q2 div 64"
  have e1: "l = 64 * q1 + l mod 64" by (simp add: q1_def)
  have e2: "q1 = 64 * q2 + q1 mod 64" by (simp add: q2_def)
  have e3: "q2 = 64 * q3 + q2 mod 64" by (simp add: q3_def)
  have d2: "l div 4096 = q2" unfolding q2_def q1_def by (simp add: div_mult2_eq)
  have d3: "l div 262144 = q3" unfolding q3_def q2_def q1_def by (simp add: div_mult2_eq)
  have "q3 < 64" using assms unfolding d3 [symmetric] by (simp add: less_mult_imp_div_less)
  then have "q3 mod 64 = q3" by simp
  then show ?thesis
    unfolding d2 d3 q1_def [symmetric] using e1 e2 e3 by linarith
qed

lemma bytes_of_three:
  fixes a b c l :: nat
  assumes "a < 256" "b < 256" "c < 256" and l: "l = a * 65536 + b * 256 + c"
  shows "l div 65536 mod 256 = a" "l div 256 mod 256 = b" "l mod 256 = c"
proof -
  have q: "l div 256 = a * 256 + b"
    unfolding l using assms(3) by (intro div_nat_eqI) simp_all
  define r where "r = l mod 256"
  have "l = 256 * (l div 256) + r" by (simp add: r_def)
  then have "l = 256 * (a * 256 + b) + r" using q by simp
  then have "r = c" unfolding l by simp
  then show "l mod 256 = c" by (simp add: r_def)
  have q2: "l div 65536 = a"
    unfolding l using assms(2,3) by (intro div_nat_eqI) simp_all
  then show "l div 65536 mod 256 = a" using assms(1) by simp
  have "(a * 256 + b) mod 256 = b" using assms(2) by simp
  then show "l div 256 mod 256 = b" using q by simp
qed

lemma unat_byte_less: "unat (b :: byte) < 256"
  using unsigned_less [of b, where ?'a = nat] by simp

lemma decode_groups_sextets:
  assumes l: "l = a * 65536 + b * 256 + c" and "a < 256" "b < 256" "c < 256"
    and s: "s0 = conv_bin2ascii (l div 262144)" "s1 = conv_bin2ascii (l div 4096)"
    and t: "conv_ascii2bin s2 = l div 64 mod 64" "conv_ascii2bin s3 = l mod 64"
  shows "decode_groups (s0 # s1 # s2 # s3 # rest) =
    (case decode_groups rest of None \<Rightarrow> None
     | Some bs \<Rightarrow> Some (of_nat a # of_nat b # of_nat c # bs))"
proof -
  have lt: "l < 16777216" using assms by simp
  have m: "conv_ascii2bin s0 * 262144 + conv_ascii2bin s1 * 4096 + conv_ascii2bin s2 * 64
             + conv_ascii2bin s3 = l"
    using sextets_sum [OF lt] by (simp only: s t conv_ascii2bin_bin2ascii)
  have small: "\<not> (128 \<le> conv_ascii2bin s0 \<or> 128 \<le> conv_ascii2bin s1
                  \<or> 128 \<le> conv_ascii2bin s2 \<or> 128 \<le> conv_ascii2bin s3)"
  proof -
    have "x mod 64 < 128" for x :: nat
      using mod_less_divisor [of 64 x] by linarith
    then show ?thesis by (simp add: s t conv_ascii2bin_bin2ascii not_le)
  qed
  show ?thesis
    using small bytes_of_three [OF assms(2,3,4) l]
    by (cases "decode_groups rest") (simp_all add: Let_def m del: not_le)
qed

lemma pad_count_simps:
  "pad_count 0 = 0" "pad_count (Suc 0) = 2" "pad_count (Suc (Suc 0)) = 1"
  "pad_count (Suc (Suc (Suc n))) = pad_count n"
  by (simp_all add: pad_count_def)

lemma replicate_two_one: "replicate 2 x = [x, x]" "replicate 1 x = [x]"
  by (simp_all add: numeral_2_eq_2)

lemma decode_groups_encode:
  "decode_groups (EVP_EncodeBlock d) = Some (d @ replicate (pad_count (length d)) 0)"
proof (induction d rule: EVP_EncodeBlock.induct)
  case 1
  then show ?case by (simp add: pad_count_simps)
next
  case (2 f0)
  define l where "l = unat f0 * 65536"
  have l: "l = unat f0 * 65536 + 0 * 256 + 0" by (simp add: l_def)
  have z: "l div 64 mod 64 = 0" "l mod 64 = 0"
  proof -
    have "l = unat f0 * 1024 * 64" by (simp add: l_def)
    then show "l div 64 mod 64 = 0" "l mod 64 = 0" by simp_all
  qed
  have enc: "EVP_EncodeBlock [f0] = [conv_bin2ascii (l div 262144), conv_bin2ascii (l div 4096),
          CHR ''='', CHR ''='']"
    by (simp add: l_def Let_def)
  have dec: "decode_groups [conv_bin2ascii (l div 262144), conv_bin2ascii (l div 4096),
          CHR ''='', CHR ''=''] = Some [of_nat (unat f0), of_nat 0, of_nat 0]"
    using decode_groups_sextets [OF l unat_byte_less _ _ refl refl, of "CHR ''=''" "CHR ''=''" "[]"]
    by (simp add: conv_ascii2bin_eq z)
  show ?case unfolding enc dec by (simp add: pad_count_simps replicate_two_one)
next
  case (3 f0 f1)
  define l where "l = unat f0 * 65536 + unat f1 * 256"
  have l: "l = unat f0 * 65536 + unat f1 * 256 + 0" by (simp add: l_def)
  have z: "l mod 64 = 0"
  proof -
    have "l = (unat f0 * 1024 + unat f1 * 4) * 64" by (simp add: l_def)
    then show ?thesis by simp
  qed
  have enc: "EVP_EncodeBlock [f0, f1] = [conv_bin2ascii (l div 262144),
          conv_bin2ascii (l div 4096), conv_bin2ascii (l div 64), CHR ''='']"
    by (simp add: l_def Let_def)
  have dec: "decode_groups [conv_bin2ascii (l div 262144), conv_bin2ascii (l div 4096),
          conv_bin2ascii (l div 64), CHR ''=''] = Some [of_nat (unat f0), of_nat (unat f1), of_nat 0]"
    using decode_groups_sextets [OF l unat_byte_less unat_byte_less _ refl refl,
        of "conv_bin2ascii (l div 64)" "CHR ''=''" "[]"]
    by (simp add: conv_ascii2bin_eq conv_ascii2bin_bin2ascii z)
  show ?case unfolding enc dec by (simp add: pad_count_simps replicate_two_one)
next
  case (4 f0 f1 f2 rest)
  define l where "l = unat f0 * 65536 + unat f1 * 256 + unat f2"
  have enc: "EVP_EncodeBlock (f0 # f1 # f2 # rest) = conv_bin2ascii (l div 262144)
          # conv_bin2ascii (l div 4096) # conv_bin2ascii (l div 64) # conv_bin2ascii l
          # EVP_EncodeBlock rest"
    by (simp add: l_def Let_def)
  have dec: "decode_groups (conv_bin2ascii (l div 262144) # conv_bin2ascii (l div 4096)
          # conv_bin2ascii (l div 64) # conv_bin2ascii l # EVP_EncodeBlock rest)
        = Some (of_nat (unat f0) # of_nat (unat f1) # of_nat (unat f2)
                 # rest @ replicate (pad_count (length rest)) 0)"
    using decode_groups_sextets [OF l_def unat_byte_less unat_byte_less unat_byte_less refl refl,
        of "conv_bin2ascii (l div 64)" "conv_bin2ascii l" "EVP_EncodeBlock rest"] 4
    by (simp add: conv_ascii2bin_bin2ascii)
  show ?case unfolding enc dec by (simp add: pad_count_simps)
qed


lemma index_of_less: "index_of c xs = Some i \<Longrightarrow> i < length xs"
  by (induction xs arbitrary: i) (auto split: if_splits)

lemma index_of_Some: "c \<in> set xs \<Longrightarrow> \<exists>i. index_of c xs = Some i"
  by (induction xs) auto

lemma index_of_alphabet_less: "index_of c b64_alphabet = Some i \<Longrightarrow> i < 64"
  using index_of_less [of c b64_alphabet i] length_b64_alphabet by simp

lemma conv_ascii2bin_index: "index_of c b64_alphabet = Some i \<Longrightarrow> conv_ascii2bin c = i"
  unfolding conv_ascii2bin_def by simp

lemma conv_ascii2bin_text_less:
  assumes "c \<in> set b64_alphabet \<or> c = CHR ''=''"
  shows "conv_ascii2bin c < 64"
proof (cases "c \<in> set b64_alphabet")
  case True
  from index_of_Some [OF True] obtain i where i: "index_of c b64_alphabet = Some i" ..
  show ?thesis
    using index_of_alphabet_less [OF i] conv_ascii2bin_index [OF i] by simp
next
  case False
  then have "c = CHR ''=''" using assms by blast
  then show ?thesis using conv_ascii2bin_eq by simp
qed

lemma set_EVP_EncodeBlock: "set (EVP_EncodeBlock d) \<subseteq> insert CHR ''='' (set b64_alphabet)"
  by (induction d rule: EVP_EncodeBlock.induct) (auto simp: Let_def conv_bin2ascii_in)


lemma length_EVP_EncodeBlock: "length (EVP_EncodeBlock d) = 4 * ((length d + 2) div 3)"
proof (induction d rule: EVP_EncodeBlock.induct)
  case (4 f0 f1 f2 rest)
  have "(length (f0 # f1 # f2 # rest) + 2) div 3 = Suc ((length rest + 2) div 3)" by simp
  then show ?case using 4 by (simp add: Let_def)
qed (simp_all add: Let_def)

lemma strip_end_text:
  assumes "f = [] \<or> conv_ascii2bin (last f) < 64"
  shows "strip_end f = f"
  using assms by (subst strip_end.simps) (auto simp: B64_NOT_BASE64_def)

lemma dropWhile_text:
  assumes "\<And>c. c \<in> set f \<Longrightarrow> conv_ascii2bin c < 64"
  shows "dropWhile (\<lambda>c. conv_ascii2bin c = 0xE0) f = f"
proof (cases f)
  case Nil
  then show ?thesis by simp
next
  case (Cons c cs)
  then have "conv_ascii2bin c < 64" using assms by simp
  then show ?thesis using Cons by simp
qed

lemma EVP_DecodeBlock_encode:
  "EVP_DecodeBlock (EVP_EncodeBlock d) = Some (d @ replicate (pad_count (length d)) 0)"
proof -
  let ?e = "EVP_EncodeBlock d"
  have small: "conv_ascii2bin c < 64" if "c \<in> set ?e" for c
    using that set_EVP_EncodeBlock [of d] by (intro conv_ascii2bin_text_less) auto
  have d: "dropWhile (\<lambda>c. conv_ascii2bin c = 0xE0) ?e = ?e"
    by (rule dropWhile_text) (rule small)
  have s: "strip_end ?e = ?e"
    by (rule strip_end_text) (use small in \<open>auto intro: last_in_set\<close>)
  have "length ?e mod 4 = 0" by (simp add: length_EVP_EncodeBlock)
  then show ?thesis
    by (simp add: EVP_DecodeBlock_def d s decode_groups_encode)
qed

lemma tail_padding_encode:
  "(if 2 < length (EVP_EncodeBlock d)
       \<and> EVP_EncodeBlock d ! (length (EVP_EncodeBlock d) - 1) = CHR ''=''
    then (if EVP_EncodeBlock d ! (length (EVP_EncodeBlock d) - 2) = CHR ''='' then 2 else 1)
    else 0) = int (pad_count (length d))"
proof (induction d rule: EVP_EncodeBlock.induct)
  case 1
  then show ?case by (simp add: pad_count_simps)
next
  case (2 f0)
  then show ?case by (simp add: pad_count_simps Let_def)
next
  case (3 f0 f1)
  then show ?case by (simp add: pad_count_simps Let_def conv_bin2ascii_neq)
next
  case (4 f0 f1 f2 rest)
  define l where "l = unat f0 * 65536 + unat f1 * 256 + unat f2"
  define g where "g = [conv_bin2ascii (l div 262144), conv_bin2ascii (l div 4096),
          conv_bin2ascii (l div 64), conv_bin2ascii l]"
  have enc: "EVP_EncodeBlock (f0 # f1 # f2 # rest) = g @ EVP_EncodeBlock rest"
    by (simp add: l_def g_def Let_def)
  have lg: "length g = 4" by (simp add: g_def)
  show ?case
  proof (cases rest)
    case Nil
    then show ?thesis
      unfolding enc by (simp add: g_def pad_count_simps conv_bin2ascii_neq)
  next
    case (Cons r rs)
    let ?e = "EVP_EncodeBlock rest"
    have le: "4 \<le> length ?e" using Cons by (simp add: length_EVP_EncodeBlock)
    have n1: "(g @ ?e) ! (length (g @ ?e) - 1) = ?e ! (length ?e - 1)"
    proof -
      have "length (g @ ?e) - 1 = length g + (length ?e - 1)" using le by simp
      then show ?thesis by (simp only: nth_append_length_plus)
    qed
    have n2: "(g @ ?e) ! (length (g @ ?e) - 2) = ?e ! (length ?e - 2)"
    proof -
      have "length (g @ ?e) - 2 = length g + (length ?e - 2)" using le by simp
      then show ?thesis by (simp only: nth_append_length_plus)
    qed
    have c: "2 < length (g @ ?e) \<longleftrightarrow> 2 < length ?e" using le lg by simp
    show ?thesis
      unfolding enc n1 n2 c using 4 by (simp add: pad_count_simps)
  qed
qed


subsection \<open>The block loop of the decoder\<close>

lemma length_decode_groups: "decode_groups f = Some bs \<Longrightarrow> length bs \<le> length f"
proof (induction f arbitrary: bs rule: decode_groups.induct)
  case (1 c0 c1 c2 c3 rest)
  from "1.prems" obtain bs' where r: "decode_groups rest = Some bs'"
    and b: "length bs = 3 + length bs'"
    and small: "\<not> (128 \<le> conv_ascii2bin c0 \<or> 128 \<le> conv_ascii2bin c1
                  \<or> 128 \<le> conv_ascii2bin c2 \<or> 128 \<le> conv_ascii2bin c3)"
    by (auto simp: Let_def split: if_splits option.splits)
  have "length bs' \<le> length rest"
    using small r by (intro "1.IH" [OF refl refl refl refl _ refl]) simp_all
  then show ?case using b by simp
qed simp_all

lemma length_strip_end: "length (strip_end f) \<le> length f"
proof (induction f rule: strip_end.induct)
  case (1 f)
  show ?case
  proof (cases "3 < length f \<and> B64_NOT_BASE64 (conv_ascii2bin (last f))")
    case True
    then have "strip_end f = strip_end (butlast f)" by (subst strip_end.simps) simp
    then show ?thesis using 1 [OF True] by simp
  next
    case False
    then have "strip_end f = f" by (subst strip_end.simps) auto
    then show ?thesis by simp
  qed
qed

lemma length_EVP_DecodeBlock: "EVP_DecodeBlock f = Some bs \<Longrightarrow> length bs \<le> length f"
proof -
  assume a: "EVP_DecodeBlock f = Some bs"
  let ?f1 = "dropWhile (\<lambda>c. conv_ascii2bin c = 0xE0) f"
  have "decode_groups (strip_end ?f1) = Some bs"
    using a by (simp add: EVP_DecodeBlock_def Let_def split: if_splits)
  then have "length bs \<le> length (strip_end ?f1)" by (rule length_decode_groups)
  also have "\<dots> \<le> length ?f1" by (rule length_strip_end)
  also have "\<dots> \<le> length f" by (rule length_dropWhile_le)
  finally show ?thesis .
qed

text \<open>One turn of the loop, and the ways it ends.\<close>

lemma b64_read_no_room: "outl \<le> 0 \<Longrightarrow> b64_read src tmp outl = []"
  by (subst b64_read.simps) simp

lemma b64_read_end_of_source:
  assumes "take (1024 - length tmp) src = []"
  shows "b64_read src tmp outl = []"
  by (subst b64_read.simps) (simp only: assms Let_def simp_thms if_True if_cancel)

lemma b64_read_invalid:
  assumes blk: "blk = take (1024 - length tmp) src"
    and t: "t = tmp @ blk" and jj: "jj = length t - length t mod 4"
    and dec: "EVP_DecodeBlock (take jj t) = None"
  shows "b64_read src tmp outl = []"
  using dec [unfolded jj t blk]
  by (subst b64_read.simps) (simp only: Let_def option.case simp_thms if_cancel)

lemma b64_read_turn:
  assumes o: "0 < outl" and blk: "blk = take (1024 - length tmp) src" and ne: "blk \<noteq> []"
    and t: "t = tmp @ blk" and jj: "jj = length t - length t mod 4"
    and dec: "EVP_DecodeBlock (take jj t) = Some bs"
    and z: "z = int (length bs)
              - (if 2 < jj \<and> t ! (jj - 1) = CHR ''=''
                 then (if t ! (jj - 2) = CHR ''='' then 2 else 1) else 0)"
  shows "b64_read src tmp outl =
     (if z \<le> 0 then []
      else take (nat (min z outl)) bs
           @ b64_read (drop (length blk) src) (drop jj t)
               (outl - int (length (take (nat (min z outl)) bs))))"
proof -
  have a: "\<not> outl \<le> 0" using o by simp
  have b: "take (1024 - length tmp) src \<noteq> []" using ne blk by simp
  show ?thesis
    unfolding z jj t blk
    using dec [unfolded jj t blk] a b
    by (subst b64_read.simps) (simp only: Let_def if_False option.case simp_thms)
qed


text \<open>What a turn delivers: never more than the room, nor than the characters it held.\<close>

lemma b64_turn_facts:
  assumes t: "t = tmp @ blk" and jj: "jj = length t - length t mod 4"
    and dec: "EVP_DecodeBlock (take jj t) = Some bs"
    and z: "z = int (length bs)
              - (if 2 < jj \<and> t ! (jj - 1) = CHR ''=''
                 then (if t ! (jj - 2) = CHR ''='' then 2 else 1) else 0)"
  shows "z \<le> int (length bs)" and "length bs \<le> jj" and "jj \<le> length t"
proof -
  show "z \<le> int (length bs)" unfolding z by simp
  show j: "jj \<le> length t" unfolding jj by simp
  have "length bs \<le> length (take jj t)" using dec by (rule length_EVP_DecodeBlock)
  then show "length bs \<le> jj" using j by simp
qed

lemma length_b64_read: "length (b64_read src tmp outl) \<le> nat outl"
proof (induction src tmp outl rule: b64_read.induct)
  case (1 src tmp outl)
  define blk where "blk = take (1024 - length tmp) src"
  define t where "t = tmp @ blk"
  define jj where "jj = length t - length t mod 4"
  show ?case
  proof (cases "outl \<le> 0 \<or> blk = []")
    case True
    then show ?thesis
      using b64_read_no_room [of outl src tmp] b64_read_end_of_source [of tmp src outl]
      by (auto simp: blk_def)
  next
    case False
    then have o: "0 < outl" "\<not> outl \<le> 0" and ne: "blk \<noteq> []" by simp_all
    show ?thesis
    proof (cases "EVP_DecodeBlock (take jj t)")
      case None
      then show ?thesis using b64_read_invalid [OF blk_def t_def jj_def] by simp
    next
      case (Some bs)
      define z where "z = int (length bs)
              - (if 2 < jj \<and> t ! (jj - 1) = CHR ''=''
                 then (if t ! (jj - 2) = CHR ''='' then 2 else 1) else 0)"
      define got where "got = take (nat (min z outl)) bs"
      note turn = b64_read_turn [OF o(1) blk_def ne t_def jj_def Some z_def]
      show ?thesis
      proof (cases "z \<le> 0")
        case True
        then show ?thesis using turn by simp
      next
        case z0: False
        have ih: "length (b64_read (drop (length blk) src) (drop jj t) (outl - int (length got)))
                    \<le> nat (outl - int (length got))"
          by (rule "1.IH" [OF o(2) blk_def ne t_def jj_def Some z_def z0 got_def])
        have g: "int (length got) \<le> outl" using o by (simp add: got_def)
        have "b64_read src tmp outl
               = got @ b64_read (drop (length blk) src) (drop jj t) (outl - int (length got))"
          using turn z0 by (simp only: got_def if_False)
        then show ?thesis using ih g by simp
      qed
    qed
  qed
qed

lemma length_b64_read_source: "length (b64_read src tmp outl) \<le> length tmp + length src"
proof (induction src tmp outl rule: b64_read.induct)
  case (1 src tmp outl)
  define blk where "blk = take (1024 - length tmp) src"
  define t where "t = tmp @ blk"
  define jj where "jj = length t - length t mod 4"
  show ?case
  proof (cases "outl \<le> 0 \<or> blk = []")
    case True
    then show ?thesis
      using b64_read_no_room [of outl src tmp] b64_read_end_of_source [of tmp src outl]
      by (auto simp: blk_def)
  next
    case False
    then have o: "0 < outl" "\<not> outl \<le> 0" and ne: "blk \<noteq> []" by simp_all
    show ?thesis
    proof (cases "EVP_DecodeBlock (take jj t)")
      case None
      then show ?thesis using b64_read_invalid [OF blk_def t_def jj_def] by simp
    next
      case (Some bs)
      define z where "z = int (length bs)
              - (if 2 < jj \<and> t ! (jj - 1) = CHR ''=''
                 then (if t ! (jj - 2) = CHR ''='' then 2 else 1) else 0)"
      define got where "got = take (nat (min z outl)) bs"
      note turn = b64_read_turn [OF o(1) blk_def ne t_def jj_def Some z_def]
      note f = b64_turn_facts [OF t_def jj_def Some z_def]
      show ?thesis
      proof (cases "z \<le> 0")
        case True
        then show ?thesis using turn by simp
      next
        case z0: False
        have ih: "length (b64_read (drop (length blk) src) (drop jj t) (outl - int (length got)))
                    \<le> length (drop jj t) + length (drop (length blk) src)"
          by (rule "1.IH" [OF o(2) blk_def ne t_def jj_def Some z_def z0 got_def])
        have g: "length got \<le> jj" using f(2) by (simp add: got_def)
        have lb: "length blk \<le> length src" by (simp add: blk_def)
        have lt: "length t = length tmp + length blk" by (simp add: t_def)
        have "b64_read src tmp outl
               = got @ b64_read (drop (length blk) src) (drop jj t) (outl - int (length got))"
          using turn z0 by (simp only: got_def if_False)
        then have "length (b64_read src tmp outl)
            \<le> length got + (length (drop jj t) + length (drop (length blk) src))"
          using ih by simp
        also have "\<dots> \<le> jj + ((length t - jj) + (length src - length blk))"
          using g by simp
        also have "\<dots> = length tmp + length src" using f(3) lb lt by simp
        finally show ?thesis .
      qed
    qed
  qed
qed

text \<open>With less room the filter delivers a prefix of what it delivers with more.\<close>

lemma b64_read_prefix:
  "a \<le> b \<Longrightarrow> b64_read src tmp a = take (nat a) (b64_read src tmp b)"
proof (induction src tmp b arbitrary: a rule: b64_read.induct)
  case (1 src tmp outl)
  define blk where "blk = take (1024 - length tmp) src"
  define t where "t = tmp @ blk"
  define jj where "jj = length t - length t mod 4"
  show ?case
  proof (cases "a \<le> 0 \<or> blk = []")
    case True
    then show ?thesis
      using b64_read_no_room [of a src tmp] b64_read_end_of_source [of tmp src]
      by (auto simp: blk_def)
  next
    case False
    then have oa: "0 < a" and ne: "blk \<noteq> []" by simp_all
    then have o: "0 < outl" "\<not> outl \<le> 0" using "1.prems" by simp_all
    show ?thesis
    proof (cases "EVP_DecodeBlock (take jj t)")
      case None
      then show ?thesis using b64_read_invalid [OF blk_def t_def jj_def] by simp
    next
      case (Some bs)
      define z where "z = int (length bs)
              - (if 2 < jj \<and> t ! (jj - 1) = CHR ''=''
                 then (if t ! (jj - 2) = CHR ''='' then 2 else 1) else 0)"
      define got where "got = take (nat (min z outl)) bs"
      define gota where "gota = take (nat (min z a)) bs"
      note turn = b64_read_turn [OF o(1) blk_def ne t_def jj_def Some z_def]
      note turna = b64_read_turn [OF oa blk_def ne t_def jj_def Some z_def]
      note f = b64_turn_facts [OF t_def jj_def Some z_def]
      show ?thesis
      proof (cases "z \<le> 0")
        case True
        then show ?thesis using turn turna by simp
      next
        case z0: False
        have rb: "b64_read src tmp outl
               = got @ b64_read (drop (length blk) src) (drop jj t) (outl - int (length got))"
          using turn z0 by (simp only: got_def if_False)
        have ra: "b64_read src tmp a
               = gota @ b64_read (drop (length blk) src) (drop jj t) (a - int (length gota))"
          using turna z0 by (simp only: gota_def if_False)
        have lg: "int (length got) = min z outl" using f(1) z0 o by (simp add: got_def)
        have lga: "int (length gota) = min z a" using f(1) z0 oa by (simp add: gota_def)
        show ?thesis
        proof (cases "z \<le> a")
          case True
          then have e: "gota = got" using "1.prems" by (simp add: got_def gota_def min_def)
          have l: "int (length got) = z" using lg True "1.prems" by simp
          have "a - int (length got) \<le> outl - int (length got)" using "1.prems" by simp
          then have ih: "b64_read (drop (length blk) src) (drop jj t) (a - int (length got))
                  = take (nat (a - int (length got)))
                      (b64_read (drop (length blk) src) (drop jj t) (outl - int (length got)))"
            by (rule "1.IH" [OF o(2) blk_def ne t_def jj_def Some z_def z0 got_def])
          have "nat a - length got = nat (a - int (length got))" by simp
          moreover have "length got \<le> nat a" using l True by simp
          ultimately show ?thesis
            unfolding ra rb e ih by simp
        next
          case False
          then have la: "length gota = nat a" using lga by simp
          then have "a - int (length gota) \<le> 0" using oa by simp
          then have "b64_read (drop (length blk) src) (drop jj t) (a - int (length gota)) = []"
            by (rule b64_read_no_room)
          then have l: "b64_read src tmp a = gota" using ra by simp
          have "nat a \<le> length got" using lg False "1.prems" by simp
          then have "take (nat a) (got @ b64_read (drop (length blk) src) (drop jj t)
                      (outl - int (length got))) = take (nat a) got"
            by simp
          also have "\<dots> = take (nat a) bs"
            using False "1.prems" by (simp add: got_def min_def)
          also have "\<dots> = gota" using False by (simp add: gota_def min_def)
          finally show ?thesis unfolding l rb by simp
        qed
      qed
    qed
  qed
qed

lemma length_BIO_read_b64: "length (BIO_read_b64 str outl) \<le> nat outl"
  unfolding BIO_read_b64_def by (rule length_b64_read)

lemma length_decoded_bytes: "length (decoded_bytes str) \<le> length str"
  unfolding decoded_bytes_def BIO_read_b64_def
  using length_b64_read_source [of str "[]"] by simp

lemma BIO_read_b64_take: "BIO_read_b64 str outl = take (nat outl) (decoded_bytes str)"
proof (cases "outl \<le> int (length str)")
  case True
  then show ?thesis
    unfolding decoded_bytes_def BIO_read_b64_def by (rule b64_read_prefix)
next
  case False
  then have le: "int (length str) \<le> outl" by simp
  have "length (b64_read str [] outl) \<le> length str"
    using length_b64_read_source [of str "[]" outl] by simp
  then have "b64_read str [] (int (length str)) = b64_read str [] outl"
    using b64_read_prefix [OF le, of str "[]"] by simp
  moreover have "length (b64_read str [] outl) \<le> nat outl" by (rule length_b64_read)
  ultimately show ?thesis
    unfolding decoded_bytes_def BIO_read_b64_def by simp
qed

lemma length_base64_decode: "length (base64_decode g str explen) = nat explen"
  using length_BIO_read_b64 [of str explen] by (simp add: base64_decode_def malloc_def Let_def)

lemma decode_spec_Inr:
  assumes "decode_spec str explen = Inr d"
  shows "d = decoded_bytes str" "int (length d) = explen"
  using assms by (simp_all add: decode_spec_def split: if_splits)

text \<open>
  A text of at most 1024 characters is one block. Up to three characters behind the
  last full group of four are kept back and never decoded.
\<close>

lemma BIO_read_b64_encode_tail:
  assumes "length d \<le> 768" and "length rest < 4"
    and "length (EVP_EncodeBlock d) + length rest \<le> 1024"
  shows "BIO_read_b64 (EVP_EncodeBlock d @ rest) outl = take (nat outl) d"
proof (cases "outl \<le> 0 \<or> d = []")
  case True
  have "b64_read rest [] outl = []"
  proof (cases "outl \<le> 0 \<or> rest = []")
    case True
    then show ?thesis
      using b64_read_no_room [of outl] b64_read_end_of_source [of "[]" "[]" outl] by auto
  next
    case False
    then have o: "0 < outl" and ne: "rest \<noteq> []" by simp_all
    have blk: "rest = take (1024 - length ([] :: string)) rest" using assms(2) by simp
    have t: "rest = [] @ rest" by simp
    have jj: "0 = length rest - length rest mod 4" using assms(2) by simp
    have "strip_end [] = []" by (subst strip_end.simps) simp
    then have dec: "EVP_DecodeBlock (take 0 rest) = Some []"
      by (simp add: EVP_DecodeBlock_def)
    have z: "(0 :: int) = int (length ([] :: byte list))
              - (if 2 < (0 :: nat) \<and> rest ! (0 - 1) = CHR ''=''
                 then (if rest ! (0 - 2) = CHR ''='' then 2 else 1) else 0)"
      by simp
    show ?thesis
      by (simp add: b64_read_turn [OF o blk ne t jj dec z])
  qed
  then show ?thesis
    using True b64_read_no_room [of outl] by (auto simp: BIO_read_b64_def)
next
  case False
  then have o: "0 < outl" and d: "d \<noteq> []" by simp_all
  let ?e = "EVP_EncodeBlock d"
  let ?t = "?e @ rest"
  have blk: "?t = take (1024 - length ([] :: string)) ?t" using assms(3) by simp
  have l4: "4 \<le> length ?e" using d by (cases d) (simp_all add: length_EVP_EncodeBlock)
  then have ne: "?t \<noteq> []" by auto
  have t: "?t = [] @ ?t" by simp
  have "length ?e mod 4 = 0" by (simp add: length_EVP_EncodeBlock)
  then have "length ?t mod 4 = length rest" using assms(2) by (simp add: mod_add_eq [symmetric])
  then have jj: "length ?e = length ?t - length ?t mod 4" by simp
  have dec: "EVP_DecodeBlock (take (length ?e) ?t) = Some (d @ replicate (pad_count (length d)) 0)"
    by (simp add: EVP_DecodeBlock_encode)
  have "length ?e - 1 < length ?e" "length ?e - 2 < length ?e" using l4 by linarith+
  then have n1: "?t ! (length ?e - 1) = ?e ! (length ?e - 1)"
    and n2: "?t ! (length ?e - 2) = ?e ! (length ?e - 2)"
    by (simp_all only: nth_append if_True)
  have z: "int (length d) = int (length (d @ replicate (pad_count (length d)) (0 :: byte)))
              - (if 2 < length ?e \<and> ?t ! (length ?e - 1) = CHR ''=''
                 then (if ?t ! (length ?e - 2) = CHR ''='' then 2 else 1) else 0)"
    unfolding n1 n2
    by (simp only: tail_padding_encode length_append length_replicate of_nat_add
        add_diff_cancel_right')
  have fin: "b64_read (drop (length ?t) ?t) tmp n = []" for tmp n
    by (rule b64_read_end_of_source) simp
  have "b64_read ?t [] outl =
     (if int (length d) \<le> 0 then []
      else take (nat (min (int (length d)) outl)) (d @ replicate (pad_count (length d)) 0)
           @ b64_read (drop (length ?t) ?t) (drop (length ?e) ?t)
               (outl - int (length (take (nat (min (int (length d)) outl))
                   (d @ replicate (pad_count (length d)) 0)))))"
    by (rule b64_read_turn [OF o blk ne t jj dec z])
  then have "b64_read ?t [] outl
      = take (nat (min (int (length d)) outl)) (d @ replicate (pad_count (length d)) 0)"
    using d by (simp only: fin append_Nil2) simp
  also have "\<dots> = take (nat outl) d" by (simp add: min_def)
  finally show ?thesis by (simp add: BIO_read_b64_def)
qed

lemma BIO_read_b64_encode:
  assumes "length d \<le> 768"
  shows "BIO_read_b64 (EVP_EncodeBlock d) outl = take (nat outl) d"
proof -
  have "length (EVP_EncodeBlock d) \<le> 1024" using assms by (simp add: length_EVP_EncodeBlock)
  then show ?thesis using BIO_read_b64_encode_tail [OF assms, of "[]" outl] by simp
qed

lemma base64_decode_encode:
  "length d \<le> 768 \<Longrightarrow> base64_decode g (EVP_EncodeBlock d) (int (length d)) = d"
  by (simp add: base64_decode_def BIO_read_b64_encode malloc_def)

lemma decoded_bytes_encode:
  assumes "length d \<le> 768"
  shows "decoded_bytes (EVP_EncodeBlock d) = d"
proof -
  have "length d \<le> length (EVP_EncodeBlock d)"
    by (simp add: length_EVP_EncodeBlock)
  then show ?thesis by (simp add: decoded_bytes_def BIO_read_b64_encode [OF assms])
qed

subsection \<open>The text of the encoder\<close>

lemma EVP_EncodeBlock_append:
  "length xs mod 3 = 0 \<Longrightarrow> EVP_EncodeBlock (xs @ ys) = EVP_EncodeBlock xs @ EVP_EncodeBlock ys"
proof (induction xs rule: EVP_EncodeBlock.induct)
  case (4 f0 f1 f2 rest)
  then have "length rest mod 3 = 0" by simp
  then show ?case using 4 by (simp add: Let_def)
qed simp_all







section \<open>Printing a chain\<close>




lemma enc_toy:
  "EVP_EncodeBlock [210, 2] = ''0gI=''" "EVP_EncodeBlock [213, 2] = ''1QI=''"
  "EVP_EncodeBlock [216, 2] = ''2AI=''"
  by (simp_all add: Let_def conv_bin2ascii_def b64_alphabet_def)


lemma conv_bin2ascii_0: "conv_bin2ascii 0 = CHR ''A''"
  by (simp add: conv_bin2ascii_def b64_alphabet_def)

lemma EVP_EncodeBlock_zeros:
  "EVP_EncodeBlock (replicate (3 * k) 0) = replicate (4 * k) CHR ''A''"
proof (induction k)
  case 0
  then show ?case by simp
next
  case (Suc k)
  have a: "3 * Suc k = Suc (Suc (Suc (3 * k)))" by simp
  have b: "4 * Suc k = Suc (Suc (Suc (Suc (4 * k))))" by simp
  show ?case unfolding a b using Suc by (simp add: Let_def conv_bin2ascii_0)
qed


lemma EVP_EncodeBlock_zeros_16:
  "EVP_EncodeBlock (replicate 16 0) = replicate 22 CHR ''A'' @ ''==''"
proof -
  have "replicate (15 + 1) (0 :: byte) = replicate 15 0 @ replicate 1 0" by (rule replicate_add)
  then have s: "replicate 16 (0 :: byte) = replicate 15 0 @ [0]" by simp
  have "EVP_EncodeBlock (replicate 15 0 @ [0]) = EVP_EncodeBlock (replicate 15 0) @ EVP_EncodeBlock [0]"
    by (rule EVP_EncodeBlock_append) simp
  moreover have "EVP_EncodeBlock (replicate 15 0) = replicate 20 CHR ''A''"
    using EVP_EncodeBlock_zeros [of 5] by simp
  moreover have "EVP_EncodeBlock [0] = ''AA==''" by (simp add: Let_def conv_bin2ascii_0)
  moreover have "replicate (20 + 2) CHR ''A'' = replicate 20 CHR ''A'' @ replicate 2 CHR ''A''"
    by (rule replicate_add)
  then have "replicate 22 CHR ''A'' = replicate 20 CHR ''A'' @ ''AA''"
    by (simp add: numeral_2_eq_2)
  ultimately show ?thesis unfolding s by simp
qed




section \<open>Decoding\<close>

text \<open>
  Claim C3, amended. \<open>base64_decode\<close> rejects no text: for every text and every expected
  length it returns a block of exactly the expected length, and when the text has only
  characters of the alphabet and decodes to exactly the expected number of bytes, the
  block is the decoded digest. There is no \<open>LengthMismatch\<close> and no \<open>MalformedEncoding\<close>.
\<close>

theorem base64_decode_never_rejects:
  "length (base64_decode g str explen) = nat explen
   \<and> (decode_spec str explen = Inr d \<longrightarrow> base64_decode g str explen = d)"
proof (intro conjI impI)
  show "length (base64_decode g str explen) = nat explen" by (rule length_base64_decode)
next
  assume a: "decode_spec str explen = Inr d"
  have d: "d = decoded_bytes str" and l: "int (length d) = explen"
    using decode_spec_Inr [OF a] by simp_all
  have "BIO_read_b64 str explen = d"
    unfolding BIO_read_b64_take using d l by auto
  then show "base64_decode g str explen = d"
    using l by (auto simp: base64_decode_def malloc_def Let_def)
qed

lemma replicate_22: "replicate 22 CHR ''A'' = ''AAAAAAAAAAAAAAAAAAAAAA''"
  by (simp add: numeral_eq_Suc)

lemma text_zeros_16: "''AAAAAAAAAAAAAAAAAAAAAA=='' = EVP_EncodeBlock (replicate 16 0)"
  by (simp only: EVP_EncodeBlock_zeros_16 replicate_22 append.simps)

theorem base64_decode_never_rejects_witness:
  "decode_spec ''0gI='' 2 = Inr [210, 2] \<and> base64_decode (\<lambda>i. 0) ''0gI='' 2 = [210, 2]
   \<and> length (base64_decode (\<lambda>i. 0) ''0gI='' 2) = nat 2"
proof -
  have "decoded_bytes (EVP_EncodeBlock [210, 2]) = [210, 2]"
    by (rule decoded_bytes_encode) simp
  then have "decoded_bytes ''0gI='' = [210, 2]"
    by (simp only: enc_toy)
  then have "decode_spec ''0gI='' 2 = Inr [210, 2]"
    by (simp add: decode_spec_def b64_alphabet_def)
  then show ?thesis
    using base64_decode_never_rejects [of "\<lambda>i. 0" "''0gI=''" 2 "[210, 2]"] by simp
qed

text \<open>
  The claim as stated fails: a text that decodes to 16 bytes where 32 are expected, and a
  text with a character outside the alphabet, both come back as a block of the expected
  length; the bytes the filter did not deliver are whatever the heap held.
\<close>

theorem base64_decode_never_rejects_counterexample:
  "decode_spec ''AAAAAAAAAAAAAAAAAAAAAA=='' 32 = Inl LengthMismatch
   \<and> base64_decode (\<lambda>i. 0xAA) ''AAAAAAAAAAAAAAAAAAAAAA=='' 32
       = replicate 16 0 @ replicate 16 0xAA
   \<and> decode_spec ''AAA!'' 3 = Inl MalformedEncoding
   \<and> base64_decode (\<lambda>i. 0xAA) ''AAA!'' 3 = [0xAA, 0xAA, 0xAA]"
proof -
  have a: "set (EVP_EncodeBlock (replicate 16 0 :: byte list)) \<subseteq> insert CHR ''='' (set b64_alphabet)"
    by (rule set_EVP_EncodeBlock)
  have db: "decoded_bytes (EVP_EncodeBlock (replicate 16 0)) = replicate 16 0"
    by (rule decoded_bytes_encode) simp
  have "decode_spec (EVP_EncodeBlock (replicate 16 0)) 32 = Inl LengthMismatch"
    using a by (auto simp: decode_spec_def db)
  then have c1: "decode_spec ''AAAAAAAAAAAAAAAAAAAAAA=='' 32 = Inl LengthMismatch"
    by (simp only: text_zeros_16)
  have rd: "BIO_read_b64 (EVP_EncodeBlock (replicate 16 0)) 32 = take (nat 32) (replicate 16 0)"
    by (rule BIO_read_b64_encode) simp
  have "map (\<lambda>i. 0xAA :: byte) [0..<32] = replicate 32 0xAA" by (simp add: map_replicate_const)
  then have "base64_decode (\<lambda>i. 0xAA) (EVP_EncodeBlock (replicate 16 0)) 32
       = replicate 16 0 @ replicate 16 0xAA"
    by (simp add: base64_decode_def rd malloc_def)
  then have c2: "base64_decode (\<lambda>i. 0xAA) ''AAAAAAAAAAAAAAAAAAAAAA=='' 32
       = replicate 16 0 @ replicate 16 0xAA"
    by (simp only: text_zeros_16)
  have c3: "decode_spec ''AAA!'' 3 = Inl MalformedEncoding"
    by (simp add: decode_spec_def b64_alphabet_def)
  have bang: "conv_ascii2bin CHR ''!'' = 0xFF"
    by (simp add: conv_ascii2bin_def b64_alphabet_def newline_def)
  have cA: "conv_ascii2bin CHR ''A'' = 0"
    by (simp add: conv_ascii2bin_def b64_alphabet_def)
  have "strip_end ''AAA!'' = ''AAA!''"
    by (subst strip_end.simps) (simp add: bang B64_NOT_BASE64_def)
  then have "EVP_DecodeBlock ''AAA!'' = None"
    by (simp add: EVP_DecodeBlock_def cA bang)
  then have "b64_read ''AAA!'' [] 3 = []"
    by (intro b64_read_invalid [where blk = "''AAA!''" and t = "''AAA!''" and jj = 4]) simp_all
  then have "BIO_read_b64 ''AAA!'' 3 = []"
    by (simp add: BIO_read_b64_def)
  then have c4: "base64_decode (\<lambda>i. 0xAA) ''AAA!'' 3 = [0xAA, 0xAA, 0xAA]"
    by (simp add: base64_decode_def malloc_def upt_rec)
  show ?thesis using c1 c2 c3 c4 by simp
qed

section \<open>The commands and their exit status\<close>

lemma hash_chain_verify_decoded:
  assumes v: "valid_md hash"
  shows "hash_chain_verify g (base64_decode g1 s1 (md_size hash)) (base64_decode g2 s2 (md_size hash)) hash
    = Inr (md_fn hash (base64_decode g1 s1 (md_size hash)) = base64_decode g2 s2 (md_size hash))"
  by (simp add: hash_chain_verify_result [OF v] length_base64_decode)

text \<open>
  Claim C5, amended. The exit status of a verify invocation tells a matching candidate
  from every other outcome, and nothing more: a matching candidate exits with
  \<open>EXIT_SUCCESS\<close>; a candidate that does not match and an unknown algorithm name both exit
  with \<open>EXIT_FAILURE\<close>, and differ only in their output (the word \<open>failure\<close> on standard
  output, an error message on standard error).
\<close>

theorem cmd_verify_exit_status:
  assumes "4 \<le> length argv"
  shows "(digestbyname (argv ! 1) = None \<longrightarrow>
            (\<exists>r. cmd_verify digestbyname heap argv = Inr r
               \<and> exit_status r = EXIT_FAILURE \<and> stdout_text r = [] \<and> stderr_text r \<noteq> []))
       \<and> (\<forall>hash. digestbyname (argv ! 1) = Some hash \<and> valid_md hash \<longrightarrow>
            (\<exists>r. cmd_verify digestbyname heap argv = Inr r \<and> stderr_text r = []
               \<and> (md_fn hash (base64_decode (heap 0) (argv ! 2) (md_size hash))
                     = base64_decode (heap 1) (argv ! 3) (md_size hash) \<longrightarrow>
                    exit_status r = EXIT_SUCCESS \<and> stdout_text r = ''success'' @ [newline])
               \<and> (md_fn hash (base64_decode (heap 0) (argv ! 2) (md_size hash))
                     \<noteq> base64_decode (heap 1) (argv ! 3) (md_size hash) \<longrightarrow>
                    exit_status r = EXIT_FAILURE \<and> stdout_text r = ''failure'' @ [newline])))
       \<and> EXIT_SUCCESS \<noteq> EXIT_FAILURE"
proof (intro conjI allI impI)
  have ne: "argv \<noteq> []" "\<not> length argv < 4" using assms by auto
  {
    assume "digestbyname (argv ! 1) = None"
    then show "\<exists>r. cmd_verify digestbyname heap argv = Inr r
               \<and> exit_status r = EXIT_FAILURE \<and> stdout_text r = [] \<and> stderr_text r \<noteq> []"
      using ne by (simp add: cmd_verify_def)
  next
    fix hash
    assume a: "digestbyname (argv ! 1) = Some hash \<and> valid_md hash"
    let ?q = "base64_decode (heap 0) (argv ! 2) (md_size hash)"
    let ?t = "base64_decode (heap 1) (argv ! 3) (md_size hash)"
    have v: "hash_chain_verify (heap 2) ?q ?t hash = Inr (md_fn hash ?q = ?t)"
      using a by (intro hash_chain_verify_decoded) simp
    show "\<exists>r. cmd_verify digestbyname heap argv = Inr r \<and> stderr_text r = []
               \<and> (md_fn hash ?q = ?t \<longrightarrow>
                    exit_status r = EXIT_SUCCESS \<and> stdout_text r = ''success'' @ [newline])
               \<and> (md_fn hash ?q \<noteq> ?t \<longrightarrow>
                    exit_status r = EXIT_FAILURE \<and> stdout_text r = ''failure'' @ [newline])"
      using ne a v by (simp add: cmd_verify_def EVP_MD_size_def Let_def)
  next
    show "EXIT_SUCCESS \<noteq> EXIT_FAILURE" by (simp add: EXIT_SUCCESS_def EXIT_FAILURE_def)
  }
qed

lemma decode_toy:
  "base64_decode g ''0gI='' 2 = [210, 2]" "base64_decode g ''1QI='' 2 = [213, 2]"
  using base64_decode_encode [of "[210, 2]" g] base64_decode_encode [of "[213, 2]" g]
  by (simp_all add: enc_toy del: EVP_EncodeBlock.simps)

lemma cmd_verify_toy:
  "cmd_verify toy_digests zero_heap [''verify'', ''toy'', ''0gI='', ''1QI='']
     = Inr \<lparr>exit_status = EXIT_SUCCESS, stdout_text = ''success'' @ [newline], stderr_text = []\<rparr>"
  "cmd_verify toy_digests zero_heap [''verify'', ''toy'', ''0gI='', ''0gI='']
     = Inr \<lparr>exit_status = EXIT_FAILURE, stdout_text = ''failure'' @ [newline], stderr_text = []\<rparr>"
proof -
  have m: "md_size toy_md = 2" by (simp add: toy_md_def)
  have "hash_chain_verify g [210, 2] [213, 2] toy_md = Inr True" for g
    by (simp add: hash_chain_verify_result [OF valid_toy_md] m) (simp add: toy_md_def)
  then show "cmd_verify toy_digests zero_heap [''verify'', ''toy'', ''0gI='', ''1QI='']
     = Inr \<lparr>exit_status = EXIT_SUCCESS, stdout_text = ''success'' @ [newline], stderr_text = []\<rparr>"
    by (simp add: cmd_verify_def toy_digests_def EVP_MD_size_def m decode_toy)
  have "hash_chain_verify g [210, 2] [210, 2] toy_md = Inr False" for g
    by (simp add: hash_chain_verify_result [OF valid_toy_md] m) (simp add: toy_md_def)
  then show "cmd_verify toy_digests zero_heap [''verify'', ''toy'', ''0gI='', ''0gI='']
     = Inr \<lparr>exit_status = EXIT_FAILURE, stdout_text = ''failure'' @ [newline], stderr_text = []\<rparr>"
    by (simp add: cmd_verify_def toy_digests_def EVP_MD_size_def m decode_toy)
qed

theorem cmd_verify_exit_status_witness:
  "(4::nat) \<le> length [''verify'', ''toy'', ''0gI='', ''1QI='']
   \<and> toy_digests ([''verify'', ''toy'', ''0gI='', ''1QI=''] ! 1) = Some toy_md \<and> valid_md toy_md
   \<and> md_fn toy_md (base64_decode (zero_heap 0) ''0gI='' (md_size toy_md))
        = base64_decode (zero_heap 1) ''1QI='' (md_size toy_md)
   \<and> (\<exists>r. cmd_verify toy_digests zero_heap [''verify'', ''toy'', ''0gI='', ''1QI=''] = Inr r
         \<and> exit_status r = EXIT_SUCCESS \<and> stdout_text r = ''success'' @ [newline]
         \<and> stderr_text r = [])
   \<and> toy_digests ([''verify'', ''nosuch'', ''0gI='', ''1QI=''] ! 1) = None
   \<and> (\<exists>r. cmd_verify toy_digests zero_heap [''verify'', ''nosuch'', ''0gI='', ''1QI=''] = Inr r
         \<and> exit_status r = EXIT_FAILURE \<and> stdout_text r = [])"
proof -
  have m: "md_size toy_md = 2" by (simp add: toy_md_def)
  have d: "toy_digests ''toy'' = Some toy_md" "toy_digests ''nosuch'' = None"
    by (simp_all add: toy_digests_def)
  have e: "md_fn toy_md [210, 2] = [213, 2]" by (simp add: toy_md_def)
  show ?thesis
    using cmd_verify_exit_status [of "[''verify'', ''toy'', ''0gI='', ''1QI='']" toy_digests zero_heap]
      cmd_verify_exit_status [of "[''verify'', ''nosuch'', ''0gI='', ''1QI='']" toy_digests zero_heap]
      valid_toy_md
    by (auto simp: d m e decode_toy)
qed

text \<open>
  The claim as stated fails: a candidate that does not match and an unknown algorithm
  name leave the process with the same exit status.
\<close>

theorem cmd_verify_exit_status_counterexample:
  "main toy_digests zero_heap [''hashchain'', ''verify'', ''toy'', ''0gI='', ''0gI='']
     = Inr \<lparr>exit_status = EXIT_FAILURE, stdout_text = ''failure'' @ [newline], stderr_text = []\<rparr>
   \<and> main toy_digests zero_heap [''hashchain'', ''verify'', ''nosuch'', ''0gI='', ''0gI='']
     = Inr \<lparr>exit_status = EXIT_FAILURE, stdout_text = [],
            stderr_text = ''error: hash nosuch doesn'' @ [CHR 0x27] @ ''t exist'' @ [newline]\<rparr>"
proof -
  have "cmd_verify toy_digests zero_heap [''verify'', ''nosuch'', ''0gI='', ''0gI='']
     = Inr \<lparr>exit_status = EXIT_FAILURE, stdout_text = [],
            stderr_text = ''error: hash nosuch doesn'' @ [CHR 0x27] @ ''t exist'' @ [newline]\<rparr>"
    by (simp add: cmd_verify_def toy_digests_def)
  then show ?thesis using cmd_verify_toy(2) by (simp add: main_def)
qed

lemma sscanf_d_examples:
  "sscanf_d ''0'' = Some 0" "sscanf_d ''-1'' = Some (- 1)" "sscanf_d ''x'' = None"
  "sscanf_d ''3'' = Some 3"
  by (simp_all add: sscanf_d_def isspace_def isdigit_def digits_value_def strtol_clamp_def
      to_int32_def)

text \<open>
  Claim C4. A length argument without digits is refused with an error message and
  \<open>EXIT_FAILURE\<close>. A length of zero or a negative length is not: the command passes it to
  \<open>hash_chain_create\<close>, whose first write then falls outside the empty block it allocated.
\<close>

theorem cmd_create_length_not_checked:
  "main toy_digests zero_heap [''hashchain'', ''create'', ''toy'', ''0'', ''hi'']
     = Inl WriteOutOfBounds
   \<and> main toy_digests zero_heap [''hashchain'', ''create'', ''toy'', ''-1'', ''hi'']
     = Inl WriteOutOfBounds
   \<and> main toy_digests zero_heap [''hashchain'', ''create'', ''toy'', ''x'', ''hi'']
     = Inr \<lparr>exit_status = EXIT_FAILURE, stdout_text = [],
            stderr_text = ''error: can'' @ [CHR 0x27] @ ''t convert x to integer'' @ [newline]\<rparr>"
proof -
  have h: "hash_chain_create (map of_char ''hi'') 2 toy_md n = Inl WriteOutOfBounds" if "n \<le> 0" for n
    using that by (intro hash_chain_create_no_room [OF valid_toy_md]) simp_all
  have d: "toy_digests ''toy'' = Some toy_md" by (simp add: toy_digests_def)
  show ?thesis
    using h [of 0] h [of "- 1"]
    by (simp add: main_def cmd_create_def d sscanf_d_examples)
qed

section \<open>Printing and reading back a digest\<close>










section \<open>What building a chain leaves in memory\<close>








end
